theory Spec2Isabelle
  imports Main
begin

chapter \<open>The program\<close>

section \<open>The C library, as the program uses it\<close>

text \<open>
  \<^verbatim>\<open>getchar\<close> returns an \<^verbatim>\<open>int\<close>: a byte value 0..255, or \<^verbatim>\<open>EOF\<close>. The character
  classes are those of the "C" locale (the program never calls \<^verbatim>\<open>setlocale\<close>).
\<close>

definition EOF :: int where
  "EOF = - 1"

definition isdigit :: "int \<Rightarrow> bool" where
  "isdigit c = (48 \<le> c \<and> c \<le> 57)"

definition isalpha :: "int \<Rightarrow> bool" where
  "isalpha c = ((65 \<le> c \<and> c \<le> 90) \<or> (97 \<le> c \<and> c \<le> 122))"

definition isalnum :: "int \<Rightarrow> bool" where
  "isalnum c = (isalpha c \<or> isdigit c)"

definition isspace :: "int \<Rightarrow> bool" where
  "isspace c = (c = 32 \<or> (9 \<le> c \<and> c \<le> 13))"

definition isascii :: "int \<Rightarrow> bool" where
  "isascii c = (0 \<le> c \<and> c \<le> 127)"

text \<open>
  A \<^verbatim>\<open>char[64]\<close> array is a function from the index to the byte; every write of the
  model checks the index against the bound 64 first. \<open>c_str buf i n\<close> is the C string
  that starts at index \<open>i\<close> with \<open>n\<close> cells left: the bytes before the first NUL, or \<open>None\<close>
  when the array holds no NUL (a reader such as \<^verbatim>\<open>strcpy\<close> would leave the array).
\<close>

type_synonym buffer = "nat \<Rightarrow> char"

primrec c_str :: "buffer \<Rightarrow> nat \<Rightarrow> nat \<Rightarrow> string option" where
  "c_str buf i 0 = None"
| "c_str buf i (Suc n) =
     (if buf i = CHR 0x00 then Some []
      else (case c_str buf (Suc i) n of None \<Rightarrow> None | Some t \<Rightarrow> Some (buf i # t)))"

definition c_string :: "buffer \<Rightarrow> string option" where
  "c_string buf = c_str buf 0 64"

text \<open>
  \<open>c_cons g t\<close> is the C string whose first cell holds \<open>g\<close> and whose next cells hold the
  C string \<open>t\<close>: a NUL in the first cell ends it at once.
\<close>

definition c_cons :: "char \<Rightarrow> string \<Rightarrow> string" where
  "c_cons g t = (if g = CHR 0x00 then [] else g # t)"

lemma c_cons_simps [simp]:
  "c_cons (CHR 0x00) t = []"
  "g \<noteq> CHR 0x00 \<Longrightarrow> c_cons g t = g # t"
  by (simp_all add: c_cons_def)

section \<open>Outcomes\<close>

text \<open>
  A call either returns, or leaves the territory of defined behaviour (a write past the
  end of one of the 64-cell arrays), or, for the recursive-descent functions that are
  given a recursion budget, exhausts that budget.
\<close>

datatype 'a outcome = OutOfFuel | Undefined | Returns 'a

definition and_then :: "'a outcome \<Rightarrow> ('a \<Rightarrow> 'b outcome) \<Rightarrow> 'b outcome" where
  "and_then m f = (case m of OutOfFuel \<Rightarrow> OutOfFuel | Undefined \<Rightarrow> Undefined | Returns x \<Rightarrow> f x)"

lemma and_then_cong [fundef_cong]:
  "m = m' \<Longrightarrow> (\<And>x. m' = Returns x \<Longrightarrow> f x = f' x) \<Longrightarrow> and_then m f = and_then m' f'"
  by (cases m') (simp_all add: and_then_def)

lemma and_then_simps [simp]:
  "and_then OutOfFuel f = OutOfFuel"
  "and_then Undefined f = Undefined"
  "and_then (Returns x) f = f x"
  by (simp_all add: and_then_def)

lemma and_then_Returns_iff:
  "and_then m f = Returns y \<longleftrightarrow> (\<exists>x. m = Returns x \<and> f x = Returns y)"
  by (cases m) simp_all

section \<open>Lexer\<close>

definition tok_eof :: int where "tok_eof = - 1"

definition tok_def :: int where "tok_def = - 2"

definition tok_extern :: int where "tok_extern = - 3"

definition tok_identifier :: int where "tok_identifier = - 4"

definition tok_number :: int where "tok_number = - 5"

text \<open>
  The globals and the function-local static of the program, with the two streams.
  \<open>'d\<close> is the type \<^verbatim>\<open>double\<close>; \<^verbatim>\<open>strtod\<close> is a parameter of the functions that reach it.

  The local array \<^verbatim>\<open>NumStr\<close> of \<^verbatim>\<open>gettok\<close> is not initialised. \<open>NumStr_uninit k\<close> is what
  the array holds when \<^verbatim>\<open>gettok\<close> starts to lex its \<open>k\<close>-th number, and \<open>NumStr_calls\<close>
  counts these.
\<close>

record 'd state =
  input :: "char list"
  stderr :: string
  LastChar :: int
  IdentifierStr :: buffer
  NumVal :: 'd
  CurTok :: int
  BinopPrecedenceOperators :: "nat \<Rightarrow> char"
  BinopPrecedencePrecedence :: "nat \<Rightarrow> int"
  NumStr_uninit :: "nat \<Rightarrow> buffer"
  NumStr_calls :: nat

definition getchar :: "'d state \<Rightarrow> int \<times> 'd state" where
  "getchar s = (case input s of [] \<Rightarrow> (EOF, s) | c # cs \<Rightarrow> (of_char c, s\<lparr>input := cs\<rparr>))"

definition read_LastChar :: "'d state \<Rightarrow> 'd state" where
  \<comment> \<open>\<^verbatim>\<open>LastChar = getchar()\<close>\<close>
  "read_LastChar s = (case getchar s of (c, s') \<Rightarrow> s'\<lparr>LastChar := c\<rparr>)"

lemma input_read_LastChar: "length (input (read_LastChar s)) \<le> length (input s)"
  by (simp add: read_LastChar_def getchar_def split: list.splits)

lemma read_LastChar_consumes:
  "LastChar (read_LastChar s) \<noteq> EOF \<Longrightarrow> length (input (read_LastChar s)) < length (input s)"
  by (simp add: read_LastChar_def getchar_def split: list.splits)

function skip_space :: "'d state \<Rightarrow> 'd state" where
  \<comment> \<open>\<^verbatim>\<open>while (isspace(LastChar)) LastChar = getchar();\<close>\<close>
  "skip_space s = (if isspace (LastChar s) then skip_space (read_LastChar s) else s)"
  by pat_completeness auto
termination
proof (relation "measure (\<lambda>s. length (input s) + (if isspace (LastChar s) then 1 else 0))")
  fix s :: "'d state"
  assume "isspace (LastChar s)"
  then show "(read_LastChar s, s) \<in> measure (\<lambda>s. length (input s) + (if isspace (LastChar s) then 1 else 0))"
    by (cases "input s") (simp_all add: read_LastChar_def getchar_def EOF_def isspace_def)
qed simp

declare skip_space.simps [simp del]

function ident_loop :: "nat \<Rightarrow> 'd state \<Rightarrow> (nat \<times> 'd state) outcome" where
  \<comment> \<open>\<^verbatim>\<open>while (isalnum((LastChar = getchar()))) { IdentifierStr[charIndex] = LastChar; charIndex++; }\<close>\<close>
  "ident_loop charIndex s =
     (let s1 = read_LastChar s in
      if isalnum (LastChar s1) then
        (if charIndex < 64 then
           ident_loop (charIndex + 1)
             (s1\<lparr>IdentifierStr := (IdentifierStr s1)(charIndex := char_of (LastChar s1))\<rparr>)
         else Undefined)
      else Returns (charIndex, s1))"
  by pat_completeness auto
termination
proof (relation "measure (\<lambda>(i, s). length (input s))")
  fix charIndex :: nat and s s1 :: "'d state"
  assume "s1 = read_LastChar s" "isalnum (LastChar s1)"
  then have "length (input s1) < length (input s)"
    using read_LastChar_consumes [of s] by (auto simp: isalnum_def isalpha_def isdigit_def EOF_def)
  then show "((charIndex + 1, s1\<lparr>IdentifierStr := (IdentifierStr s1)(charIndex := char_of (LastChar s1))\<rparr>), charIndex, s)
      \<in> measure (\<lambda>(i, s). length (input s))"
    by simp
qed simp

declare ident_loop.simps [simp del]

function num_loop :: "buffer \<Rightarrow> nat \<Rightarrow> 'd state \<Rightarrow> (buffer \<times> nat \<times> 'd state) outcome" where
  \<comment> \<open>\<^verbatim>\<open>do { NumStr[charIndex] = LastChar; LastChar = getchar(); charIndex++; }
      while (isdigit(LastChar) || LastChar == '.');\<close>\<close>
  "num_loop NumStr charIndex s =
     (if charIndex < 64 then
        (let NumStr' = NumStr(charIndex := char_of (LastChar s));
             s1 = read_LastChar s
         in if isdigit (LastChar s1) \<or> LastChar s1 = 46
            then num_loop NumStr' (charIndex + 1) s1
            else Returns (NumStr', charIndex + 1, s1))
      else Undefined)"
  by pat_completeness auto
termination
proof (relation "measure (\<lambda>(b, i, s). length (input s))")
  fix NumStr NumStr' :: buffer and charIndex :: nat and s s1 :: "'d state"
  assume "s1 = read_LastChar s" "isdigit (LastChar s1) \<or> LastChar s1 = 46"
  then have "length (input s1) < length (input s)"
    using read_LastChar_consumes [of s] by (auto simp: isdigit_def EOF_def)
  then show "((NumStr', charIndex + 1, s1), NumStr, charIndex, s) \<in> measure (\<lambda>(b, i, s). length (input s))"
    by simp
qed simp

declare num_loop.simps [simp del]

function comment_loop :: "'d state \<Rightarrow> 'd state" where
  \<comment> \<open>\<^verbatim>\<open>do LastChar = getchar(); while (LastChar != EOF && LastChar != '\n' && LastChar != '\r');\<close>\<close>
  "comment_loop s =
     (let s1 = read_LastChar s in
      if LastChar s1 \<noteq> EOF \<and> LastChar s1 \<noteq> 10 \<and> LastChar s1 \<noteq> 13 then comment_loop s1 else s1)"
  by pat_completeness auto
termination
proof (relation "measure (\<lambda>s. length (input s))")
  fix s s1 :: "'d state"
  assume "s1 = read_LastChar s" "LastChar s1 \<noteq> EOF \<and> LastChar s1 \<noteq> 10 \<and> LastChar s1 \<noteq> 13"
  then show "(s1, s) \<in> measure (\<lambda>s. length (input s))"
    using read_LastChar_consumes [of s] by simp
qed simp

declare comment_loop.simps [simp del]

lemma input_skip_space: "length (input (skip_space s)) \<le> length (input s)"
proof (induction s rule: skip_space.induct)
  case (1 s)
  show ?case
  proof (cases "isspace (LastChar s)")
    case True
    with 1 have "length (input (skip_space (read_LastChar s))) \<le> length (input (read_LastChar s))"
      by simp
    with True show ?thesis
      using input_read_LastChar [of s] skip_space.simps [of s] by simp
  next
    case False
    then show ?thesis using skip_space.simps [of s] by simp
  qed
qed

lemma comment_loop_consumes:
  "LastChar (comment_loop s) \<noteq> EOF \<Longrightarrow> length (input (comment_loop s)) < length (input s)"
proof (induction s rule: comment_loop.induct)
  case (1 s)
  let ?s1 = "read_LastChar s"
  show ?case
  proof (cases "LastChar ?s1 \<noteq> EOF \<and> LastChar ?s1 \<noteq> 10 \<and> LastChar ?s1 \<noteq> 13")
    case True
    then have eq: "comment_loop s = comment_loop ?s1"
      using comment_loop.simps [of s] by (simp add: Let_def)
    with 1 True have "length (input (comment_loop ?s1)) < length (input ?s1)"
      by simp
    with eq show ?thesis
      using input_read_LastChar [of s] by simp
  next
    case False
    then have eq: "comment_loop s = ?s1"
      using comment_loop.simps [of s] by (auto simp: Let_def)
    with 1(2) show ?thesis
      using read_LastChar_consumes [of s] by simp
  qed
qed

text \<open>\<^verbatim>\<open>!strcmp(buf, lit)\<close>: the C string in \<open>buf\<close> is \<open>lit\<close>.\<close>

definition strcmp_eq :: "buffer \<Rightarrow> string \<Rightarrow> bool" where
  "strcmp_eq buf lit = (c_string buf = Some lit)"

text \<open>
  \<^verbatim>\<open>gettok\<close>. The branch for \<^verbatim>\<open>#\<close> runs the comment loop and, unless the input ended,
  calls \<^verbatim>\<open>gettok\<close> again; if the input ended there, the test for \<^verbatim>\<open>EOF\<close> that follows
  returns the end-of-input token. The local array \<^verbatim>\<open>NumStr\<close> starts as the state says it is
  found, and the number loop starts at \<^verbatim>\<open>charIndex = 1\<close>, as the source does.
\<close>

function gettok :: "(string \<Rightarrow> 'd) \<Rightarrow> 'd state \<Rightarrow> (int \<times> 'd state) outcome" where
  "gettok strtod s0 =
     (let s = skip_space s0 in
      if isalpha (LastChar s) then
        and_then (ident_loop 1 (s\<lparr>IdentifierStr := (IdentifierStr s)(0 := char_of (LastChar s))\<rparr>))
          (\<lambda>(charIndex, s1).
             if charIndex < 64 then
               (let s2 = s1\<lparr>IdentifierStr := (IdentifierStr s1)(charIndex := CHR 0x00)\<rparr> in
                if strcmp_eq (IdentifierStr s2) ''def'' then Returns (tok_def, s2)
                else if strcmp_eq (IdentifierStr s2) ''extern'' then Returns (tok_extern, s2)
                else Returns (tok_identifier, s2))
             else Undefined)
      else if isdigit (LastChar s) \<or> LastChar s = 46 then
        and_then (num_loop (NumStr_uninit s (NumStr_calls s)) 1 (s\<lparr>NumStr_calls := NumStr_calls s + 1\<rparr>))
          (\<lambda>(NumStr, charIndex, s1).
             if charIndex < 64 then
               (case c_string (NumStr(charIndex := CHR 0x00)) of
                  None \<Rightarrow> Undefined
                | Some text \<Rightarrow> Returns (tok_number, s1\<lparr>NumVal := strtod text\<rparr>))
             else Undefined)
      else if LastChar s = 35 \<and> LastChar (comment_loop s) \<noteq> EOF then
        gettok strtod (comment_loop s)
      else
        (let s1 = (if LastChar s = 35 then comment_loop s else s) in
         if LastChar s1 = EOF then Returns (tok_eof, s1)
         else Returns (LastChar s1, read_LastChar s1)))"
  by pat_completeness auto
termination
proof (relation "measure (\<lambda>(f, s). length (input s))")
  fix strtod :: "string \<Rightarrow> 'd" and s0 s :: "'d state"
  assume "s = skip_space s0" "LastChar s = 35 \<and> LastChar (comment_loop s) \<noteq> EOF"
  then show "((strtod, comment_loop s), strtod, s0) \<in> measure (\<lambda>(f, s). length (input s))"
    using comment_loop_consumes [of s] input_skip_space [of s0] by simp
qed simp

declare gettok.simps [simp del]

text \<open>
  The characters not consumed yet, the lookahead \<^verbatim>\<open>LastChar\<close> among them. A call of
  \<^verbatim>\<open>gettok\<close> never adds to them, and a token other than end-of-input costs at least one.
\<close>

definition unread :: "'d state \<Rightarrow> nat" where
  "unread s = length (input s) + (if LastChar s = EOF then 0 else 1)"

lemma of_char_not_EOF: "(of_char c :: int) \<noteq> EOF"
proof -
  have "(0::int) \<le> of_char c"
    by (metis of_char_of of_char_mod_256 pos_mod_sign zero_less_numeral)
  then show ?thesis by (simp add: EOF_def)
qed

lemma unread_read_LastChar: "unread (read_LastChar s) = length (input s)"
  by (cases "input s") (simp_all add: unread_def read_LastChar_def getchar_def of_char_not_EOF)

lemma unread_skip_space: "unread (skip_space s) \<le> unread s"
proof (induction s rule: skip_space.induct)
  case (1 s)
  show ?case
  proof (cases "isspace (LastChar s)")
    case True
    with 1 have "unread (skip_space (read_LastChar s)) \<le> length (input s)"
      by (simp add: unread_read_LastChar)
    with True show ?thesis
      using skip_space.simps [of s] by (simp add: unread_def)
  next
    case False
    then show ?thesis using skip_space.simps [of s] by simp
  qed
qed

lemma unread_ident_loop:
  "ident_loop i s = Returns (j, s') \<Longrightarrow> unread s' \<le> length (input s)"
proof (induction i s rule: ident_loop.induct)
  case (1 charIndex s)
  let ?s1 = "read_LastChar s"
  let ?s2 = "?s1\<lparr>IdentifierStr := (IdentifierStr ?s1)(charIndex := char_of (LastChar ?s1))\<rparr>"
  show ?case
  proof (cases "isalnum (LastChar ?s1)")
    case True
    with "1.prems" have lt: "charIndex < 64" and rec: "ident_loop (charIndex + 1) ?s2 = Returns (j, s')"
      using ident_loop.simps [of charIndex s] by (auto simp: Let_def split: if_splits)
    from "1.IH" [OF refl True lt rec] have "unread s' \<le> length (input ?s1)"
      by simp
    then show ?thesis
      using input_read_LastChar [of s] by simp
  next
    case False
    with "1.prems" have "s' = ?s1"
      using ident_loop.simps [of charIndex s] by (auto simp: Let_def)
    then show ?thesis by (simp add: unread_read_LastChar)
  qed
qed

lemma unread_num_loop:
  "num_loop b i s = Returns (b', j, s') \<Longrightarrow> unread s' \<le> length (input s)"
proof (induction b i s rule: num_loop.induct)
  case (1 NumStr charIndex s)
  let ?s1 = "read_LastChar s"
  let ?b = "NumStr(charIndex := char_of (LastChar s))"
  from "1.prems" have lt: "charIndex < 64"
    using num_loop.simps [of NumStr charIndex s] by (auto split: if_splits)
  show ?case
  proof (cases "isdigit (LastChar ?s1) \<or> LastChar ?s1 = 46")
    case True
    with "1.prems" lt have rec: "num_loop ?b (charIndex + 1) ?s1 = Returns (b', j, s')"
      using num_loop.simps [of NumStr charIndex s] by (auto simp: Let_def)
    from "1.IH" [OF lt refl refl True rec] show ?thesis
      using input_read_LastChar [of s] by simp
  next
    case False
    with "1.prems" lt have "s' = ?s1"
      using num_loop.simps [of NumStr charIndex s] by (auto simp: Let_def)
    then show ?thesis by (simp add: unread_read_LastChar)
  qed
qed

lemma unread_comment_loop: "unread (comment_loop s) \<le> length (input s)"
proof (induction s rule: comment_loop.induct)
  case (1 s)
  let ?s1 = "read_LastChar s"
  show ?case
  proof (cases "LastChar ?s1 \<noteq> EOF \<and> LastChar ?s1 \<noteq> 10 \<and> LastChar ?s1 \<noteq> 13")
    case True
    then have eq: "comment_loop s = comment_loop ?s1"
      using comment_loop.simps [of s] by (simp add: Let_def)
    from "1.IH" [OF refl True] eq show ?thesis
      using input_read_LastChar [of s] by simp
  next
    case False
    then have "comment_loop s = ?s1"
      using comment_loop.simps [of s] by (auto simp: Let_def)
    then show ?thesis by (simp add: unread_read_LastChar)
  qed
qed

lemma unread_gettok:
  "gettok strtod s0 = Returns (t, s') \<Longrightarrow>
     unread s' \<le> unread s0 \<and> (t \<noteq> tok_eof \<longrightarrow> unread s' < unread s0)"
proof (induction strtod s0 rule: gettok.induct)
  case (1 strtod s0)
  let ?s = "skip_space s0"
  note ret = "1.prems"
  have le0: "unread ?s \<le> unread s0"
    by (rule unread_skip_space)
  have pending: "LastChar ?s \<noteq> EOF \<Longrightarrow> length (input ?s) < unread ?s"
    by (simp add: unread_def)
  consider (ident) "isalpha (LastChar ?s)"
    | (num) "\<not> isalpha (LastChar ?s)" "isdigit (LastChar ?s) \<or> LastChar ?s = 46"
    | (retry) "\<not> isalpha (LastChar ?s)" "\<not> (isdigit (LastChar ?s) \<or> LastChar ?s = 46)"
        "LastChar ?s = 35 \<and> LastChar (comment_loop ?s) \<noteq> EOF"
    | (other) "\<not> isalpha (LastChar ?s)" "\<not> (isdigit (LastChar ?s) \<or> LastChar ?s = 46)"
        "\<not> (LastChar ?s = 35 \<and> LastChar (comment_loop ?s) \<noteq> EOF)"
    by blast
  then show ?case
  proof cases
    case ident
    let ?a = "?s\<lparr>IdentifierStr := (IdentifierStr ?s)(0 := char_of (LastChar ?s))\<rparr>"
    from ident ret obtain ci s1 where il: "ident_loop 1 ?a = Returns (ci, s1)"
      and u: "unread s' = unread s1"
      using gettok.simps [of strtod s0]
      by (cases "ident_loop 1 ?a") (auto simp: Let_def unread_def split: if_splits)
    from unread_ident_loop [OF il] have "unread s1 \<le> length (input ?s)"
      by simp
    moreover from ident have "LastChar ?s \<noteq> EOF"
      by (auto simp: isalpha_def EOF_def)
    ultimately show ?thesis
      using u le0 pending by simp
  next
    case num
    let ?a = "?s\<lparr>NumStr_calls := NumStr_calls ?s + 1\<rparr>"
    from num ret obtain b ci s1 where nl: "num_loop (NumStr_uninit ?s (NumStr_calls ?s)) 1 ?a = Returns (b, ci, s1)"
      and u: "unread s' = unread s1"
      using gettok.simps [of strtod s0]
      by (cases "num_loop (NumStr_uninit ?s (NumStr_calls ?s)) 1 ?a")
        (auto simp: Let_def unread_def split: if_splits option.splits)
    from unread_num_loop [OF nl] have "unread s1 \<le> length (input ?s)"
      by simp
    moreover from num have "LastChar ?s \<noteq> EOF"
      by (auto simp: isdigit_def EOF_def)
    ultimately show ?thesis
      using u le0 pending by simp
  next
    case retry
    with ret have "gettok strtod (comment_loop ?s) = Returns (t, s')"
      using gettok.simps [of strtod s0] by (simp add: Let_def)
    from "1.IH" [OF refl retry this]
    have "unread s' \<le> unread (comment_loop ?s)"
      by simp
    moreover have "unread (comment_loop ?s) \<le> length (input ?s)"
      by (rule unread_comment_loop)
    moreover from retry have "LastChar ?s \<noteq> EOF"
      by (simp add: EOF_def)
    ultimately show ?thesis
      using le0 pending by simp
  next
    case other
    let ?s1 = "if LastChar ?s = 35 then comment_loop ?s else ?s"
    have le1: "unread ?s1 \<le> unread ?s"
      using unread_comment_loop [of ?s] by (simp add: unread_def EOF_def)
    show ?thesis
    proof (cases "LastChar ?s1 = EOF")
      case True
      with other ret have "t = tok_eof" "s' = ?s1"
        using gettok.simps [of strtod s0] by (auto simp: Let_def split: if_splits)
      with le0 le1 show ?thesis by simp
    next
      case False
      with other ret have "s' = read_LastChar ?s1"
        using gettok.simps [of strtod s0] by (auto simp: Let_def split: if_splits)
      then have "unread s' = length (input ?s1)"
        by (simp add: unread_read_LastChar)
      moreover from False have "length (input ?s1) < unread ?s1"
        by (simp add: unread_def)
      ultimately show ?thesis
        using le0 le1 by simp
    qed
  qed
qed

section \<open>Parser state\<close>

definition getNextToken :: "(string \<Rightarrow> 'd) \<Rightarrow> 'd state \<Rightarrow> (int \<times> 'd state) outcome" where
  "getNextToken strtod s = and_then (gettok strtod s) (\<lambda>(t, s'). Returns (t, s'\<lparr>CurTok := t\<rparr>))"

lemma unread_getNextToken:
  "getNextToken strtod s = Returns (t, s') \<Longrightarrow>
     unread s' \<le> unread s \<and> (t \<noteq> tok_eof \<longrightarrow> unread s' < unread s) \<and> CurTok s' = t"
proof -
  assume a: "getNextToken strtod s = Returns (t, s')"
  then obtain s1 where g: "gettok strtod s = Returns (t, s1)" and s': "s' = s1\<lparr>CurTok := t\<rparr>"
    by (cases "gettok strtod s") (auto simp: getNextToken_def)
  from unread_gettok [OF g] s' show ?thesis
    by (simp add: unread_def)
qed

definition NUM_BINOPS :: nat where
  "NUM_BINOPS = 4"

fun binop_scan :: "'d state \<Rightarrow> nat \<Rightarrow> nat \<Rightarrow> int" where
  \<comment> \<open>the \<^verbatim>\<open>for\<close> loop of \<^verbatim>\<open>GetTokPrecedence\<close>, from index \<open>i\<close>, with \<open>k\<close> iterations left\<close>
  "binop_scan s i 0 = - 1"
| "binop_scan s i (Suc k) =
     (if CurTok s = of_char (BinopPrecedenceOperators s i) then
        (let TokPrec = BinopPrecedencePrecedence s i in if TokPrec \<le> 0 then - 1 else TokPrec)
      else binop_scan s (Suc i) k)"

definition GetTokPrecedence :: "'d state \<Rightarrow> int" where
  "GetTokPrecedence s = (if \<not> isascii (CurTok s) then - 1 else binop_scan s 0 NUM_BINOPS)"

text \<open>The \<^verbatim>\<open>for\<close> loop of \<^verbatim>\<open>main\<close> that installs the standard binary operators.\<close>

fun install_from :: "string \<Rightarrow> int list \<Rightarrow> nat \<Rightarrow> 'd state \<Rightarrow> 'd state" where
  "install_from (b # binops) (p # precedence) i s =
     install_from binops precedence (Suc i)
       (s\<lparr>BinopPrecedenceOperators := (BinopPrecedenceOperators s)(i := b),
          BinopPrecedencePrecedence := (BinopPrecedencePrecedence s)(i := p)\<rparr>)"
| "install_from _ _ i s = s"

definition install_binops :: "'d state \<Rightarrow> 'd state" where
  "install_binops s = install_from ''<+-*'' [10, 20, 30, 40] 0 s"

section \<open>Abstract syntax tree\<close>

text \<open>
  A \<^verbatim>\<open>void *\<close> to a node is an \<open>option\<close>: \<open>None\<close> is \<^verbatim>\<open>NULL\<close>. A name array holds a
  C string, copied in by \<^verbatim>\<open>strcpy\<close>. An argument array with its count is the list of the
  cells filled so far, beside the count; \<^verbatim>\<open>malloc\<close> is taken to succeed.
\<close>

datatype 'd ExprAST =
    NumberExprAST 'd
  | VariableExprAST string
  | BinaryExprAST char "'d ExprAST" "'d ExprAST"
  | CallExprAST string "'d ExprAST list" int

datatype PrototypeAST = PrototypeAST string "string list" int

datatype 'd FunctionAST = FunctionAST PrototypeAST "'d ExprAST"

section \<open>Parser\<close>

definition Error :: "string \<Rightarrow> 'd state \<Rightarrow> 'a option \<times> 'd state" where
  \<comment> \<open>\<^verbatim>\<open>fprintf(stderr, "Error: %s\n", Str); return NULL;\<close>\<close>
  "Error Str s = (None, s\<lparr>stderr := stderr s @ ''Error: '' @ Str @ [CHR 0x0A]\<rparr>)"

definition ErrorP :: "string \<Rightarrow> 'd state \<Rightarrow> PrototypeAST option \<times> 'd state" where
  "ErrorP Str s = (case (Error Str s :: unit option \<times> 'd state) of (_, s') \<Rightarrow> (None, s'))"

definition ParseNumberExpr :: "(string \<Rightarrow> 'd) \<Rightarrow> 'd state \<Rightarrow> ('d ExprAST option \<times> 'd state) outcome" where
  "ParseNumberExpr strtod s =
     (let Result = NumberExprAST (NumVal s) in
      and_then (getNextToken strtod s) (\<lambda>(_, s1). Returns (Some Result, s1)))"

text \<open>
  The recursive-descent functions call one another; \<open>n\<close> bounds the depth of the calls,
  an iteration of a \<^verbatim>\<open>while (1)\<close> loop counting as a call. \<open>ParseCallArgs\<close> is the
  argument loop of \<^verbatim>\<open>ParseIdentifierExpr\<close>.
\<close>

fun ParsePrimary :: "(string \<Rightarrow> 'd) \<Rightarrow> nat \<Rightarrow> 'd state \<Rightarrow> ('d ExprAST option \<times> 'd state) outcome"
  and ParseParenExpr :: "(string \<Rightarrow> 'd) \<Rightarrow> nat \<Rightarrow> 'd state \<Rightarrow> ('d ExprAST option \<times> 'd state) outcome"
  and ParseIdentifierExpr :: "(string \<Rightarrow> 'd) \<Rightarrow> nat \<Rightarrow> 'd state \<Rightarrow> ('d ExprAST option \<times> 'd state) outcome"
  and ParseCallArgs :: "(string \<Rightarrow> 'd) \<Rightarrow> nat \<Rightarrow> string \<Rightarrow> 'd ExprAST list \<Rightarrow> int \<Rightarrow> 'd state
        \<Rightarrow> ('d ExprAST option \<times> 'd state) outcome"
  and ParseBinOpRHS :: "(string \<Rightarrow> 'd) \<Rightarrow> nat \<Rightarrow> int \<Rightarrow> 'd ExprAST \<Rightarrow> 'd state
        \<Rightarrow> ('d ExprAST option \<times> 'd state) outcome"
  and ParseExpression :: "(string \<Rightarrow> 'd) \<Rightarrow> nat \<Rightarrow> 'd state \<Rightarrow> ('d ExprAST option \<times> 'd state) outcome"
where
  "ParsePrimary strtod 0 s = OutOfFuel"
| "ParsePrimary strtod (Suc n) s =
     (if CurTok s = tok_identifier then ParseIdentifierExpr strtod n s
      else if CurTok s = tok_number then ParseNumberExpr strtod s
      else if CurTok s = 40 then ParseParenExpr strtod n s
      else Returns (Error ''unknown token when expecting an expression'' s))"
| "ParseParenExpr strtod 0 s = OutOfFuel"
| "ParseParenExpr strtod (Suc n) s =
     and_then (getNextToken strtod s) (\<lambda>(_, s1).
     and_then (ParseExpression strtod n s1) (\<lambda>(V, s2).
       case V of
         None \<Rightarrow> Returns (None, s2)
       | Some V' \<Rightarrow>
           if CurTok s2 \<noteq> 41 then Returns (Error (''expected ')'' @ [CHR 0x27]) s2)
           else and_then (getNextToken strtod s2) (\<lambda>(_, s3). Returns (Some V', s3))))"
| "ParseIdentifierExpr strtod 0 s = OutOfFuel"
| "ParseIdentifierExpr strtod (Suc n) s =
     (case c_string (IdentifierStr s) of
        None \<Rightarrow> Undefined
      | Some IdName \<Rightarrow>
          and_then (getNextToken strtod s) (\<lambda>(_, s1).
            if CurTok s1 \<noteq> 40 then Returns (Some (VariableExprAST IdName), s1)
            else
              and_then (getNextToken strtod s1) (\<lambda>(_, s2).
              and_then
                (if CurTok s2 \<noteq> 41 then ParseCallArgs strtod n IdName [] 0 s2
                 else Returns (Some (CallExprAST IdName [] 0), s2))
                (\<lambda>(Result, s3).
                   case Result of
                     None \<Rightarrow> Returns (None, s3)
                   | Some Result' \<Rightarrow>
                       and_then (getNextToken strtod s3) (\<lambda>(_, s4). Returns (Some Result', s4))))))"
| "ParseCallArgs strtod 0 Callee Args NumArgs s = OutOfFuel"
| "ParseCallArgs strtod (Suc n) Callee Args NumArgs s =
     and_then (ParseExpression strtod n s) (\<lambda>(Arg, s1).
       case Arg of
         None \<Rightarrow> Returns (None, s1)
       | Some Arg' \<Rightarrow>
           if 0 \<le> NumArgs \<and> NumArgs < 64 then
             (let Args' = Args @ [Arg']; NumArgs' = NumArgs + 1 in
              if CurTok s1 = 41 then Returns (Some (CallExprAST Callee Args' NumArgs'), s1)
              else if CurTok s1 \<noteq> 44 then
                Returns (Error ''Expected ')' or ',' in argument list'' s1)
              else
                and_then (getNextToken strtod s1) (\<lambda>(_, s2).
                  ParseCallArgs strtod n Callee Args' NumArgs' s2))
           else Undefined)"
| "ParseBinOpRHS strtod 0 ExprPrec LHS s = OutOfFuel"
| "ParseBinOpRHS strtod (Suc n) ExprPrec LHS s =
     (let TokPrec = GetTokPrecedence s in
      if TokPrec < ExprPrec then Returns (Some LHS, s)
      else
        (let BinOp = CurTok s in
         and_then (getNextToken strtod s) (\<lambda>(_, s1).
         and_then (ParsePrimary strtod n s1) (\<lambda>(RHS, s2).
           case RHS of
             None \<Rightarrow> Returns (None, s2)
           | Some RHS' \<Rightarrow>
               (let NextPrec = GetTokPrecedence s2 in
                and_then
                  (if TokPrec < NextPrec then ParseBinOpRHS strtod n (TokPrec + 1) RHS' s2
                   else Returns (Some RHS', s2))
                  (\<lambda>(RHS2, s3).
                     case RHS2 of
                       None \<Rightarrow> Returns (None, s3)
                     | Some RHS2' \<Rightarrow>
                         ParseBinOpRHS strtod n ExprPrec (BinaryExprAST (char_of BinOp) LHS RHS2') s3))))))"
| "ParseExpression strtod 0 s = OutOfFuel"
| "ParseExpression strtod (Suc n) s =
     and_then (ParsePrimary strtod n s) (\<lambda>(LHS, s1).
       case LHS of
         None \<Rightarrow> Returns (None, s1)
       | Some LHS' \<Rightarrow> ParseBinOpRHS strtod n 0 LHS' s1)"

text \<open>The parameter loop of \<^verbatim>\<open>ParsePrototype\<close>: \<^verbatim>\<open>while (getNextToken() == tok_identifier) ...\<close>\<close>

function proto_args :: "(string \<Rightarrow> 'd) \<Rightarrow> string list \<Rightarrow> int \<Rightarrow> 'd state
    \<Rightarrow> (string list \<times> int \<times> 'd state) outcome" where
  "proto_args strtod Args NumArgs s =
     and_then (getNextToken strtod s) (\<lambda>(t, s1).
       if t = tok_identifier then
         (if 0 \<le> NumArgs \<and> NumArgs < 64 then
            (case c_string (IdentifierStr s1) of
               None \<Rightarrow> Undefined
             | Some a \<Rightarrow> proto_args strtod (Args @ [a]) (NumArgs + 1) s1)
          else Undefined)
       else Returns (Args, NumArgs, s1))"
  by pat_completeness auto
termination
proof (relation "measure (\<lambda>(f, a, n, s). unread s)")
  fix strtod :: "string \<Rightarrow> 'd" and Args :: "string list" and NumArgs :: int and s s1 :: "'d state"
    and x :: "int \<times> 'd state" and t :: int and a :: string
  assume "getNextToken strtod s = Returns x" "(t, s1) = x" "t = tok_identifier"
  then have "unread s1 < unread s"
    using unread_getNextToken [of strtod s t s1] by (auto simp: tok_identifier_def tok_eof_def)
  then show "((strtod, Args @ [a], NumArgs + 1, s1), strtod, Args, NumArgs, s) \<in> measure (\<lambda>(f, a, n, s). unread s)"
    by simp
qed simp

declare proto_args.simps [simp del]

definition ParsePrototype :: "(string \<Rightarrow> 'd) \<Rightarrow> 'd state \<Rightarrow> (PrototypeAST option \<times> 'd state) outcome" where
  "ParsePrototype strtod s =
     (if CurTok s \<noteq> tok_identifier then Returns (ErrorP ''Expected function name in prototype'' s)
      else
        (case c_string (IdentifierStr s) of
           None \<Rightarrow> Undefined
         | Some Name \<Rightarrow>
             and_then (getNextToken strtod s) (\<lambda>(_, s1).
               if CurTok s1 \<noteq> 40 then Returns (ErrorP ''Expected '(' in prototype'' s1)
               else
                 and_then (proto_args strtod [] 0 s1) (\<lambda>(Args, NumArgs, s2).
                   if CurTok s2 \<noteq> 41 then Returns (ErrorP ''Expected ')' in prototype'' s2)
                   else
                     and_then (getNextToken strtod s2) (\<lambda>(_, s3).
                       Returns (Some (PrototypeAST Name Args NumArgs), s3))))))"

definition ParseDefinition :: "(string \<Rightarrow> 'd) \<Rightarrow> nat \<Rightarrow> 'd state \<Rightarrow> ('d FunctionAST option \<times> 'd state) outcome" where
  "ParseDefinition strtod n s =
     and_then (getNextToken strtod s) (\<lambda>(_, s1).
     and_then (ParsePrototype strtod s1) (\<lambda>(Proto, s2).
       case Proto of
         None \<Rightarrow> Returns (None, s2)
       | Some Proto' \<Rightarrow>
           and_then (ParseExpression strtod n s2) (\<lambda>(E, s3).
             case E of
               Some E' \<Rightarrow> Returns (Some (FunctionAST Proto' E'), s3)
             | None \<Rightarrow> Returns (None, s3))))"

definition ParseTopLevelExpr :: "(string \<Rightarrow> 'd) \<Rightarrow> nat \<Rightarrow> 'd state \<Rightarrow> ('d FunctionAST option \<times> 'd state) outcome" where
  "ParseTopLevelExpr strtod n s =
     and_then (ParseExpression strtod n s) (\<lambda>(E, s1).
       case E of
         Some E' \<Rightarrow>
           (let Proto = PrototypeAST ''__anon_expr'' [] 0 in
            Returns (Some (FunctionAST Proto E'), s1))
       | None \<Rightarrow> Returns (None, s1))"

definition ParseExtern :: "(string \<Rightarrow> 'd) \<Rightarrow> 'd state \<Rightarrow> (PrototypeAST option \<times> 'd state) outcome" where
  "ParseExtern strtod s = and_then (getNextToken strtod s) (\<lambda>(_, s1). ParsePrototype strtod s1)"

section \<open>Start of the program\<close>

text \<open>
  The state in which \<^verbatim>\<open>main\<close> starts: statics are zero, \<^verbatim>\<open>LastChar\<close> is a space, nothing
  is written yet. \<open>zero\<close> is the \<^verbatim>\<open>double\<close> 0.0.
\<close>

definition initial :: "'d \<Rightarrow> (nat \<Rightarrow> buffer) \<Rightarrow> string \<Rightarrow> 'd state" where
  "initial zero junk stdin =
     \<lparr>input = stdin, stderr = [], LastChar = 32, IdentifierStr = (\<lambda>_. CHR 0x00), NumVal = zero,
      CurTok = 0, BinopPrecedenceOperators = (\<lambda>_. CHR 0x00), BinopPrecedencePrecedence = (\<lambda>_. 0),
      NumStr_uninit = junk, NumStr_calls = 0\<rparr>"

text \<open>\<^verbatim>\<open>main\<close> up to the call of \<^verbatim>\<open>MainLoop\<close>: install the operators, prompt, prime the first token.\<close>

definition main_start :: "(string \<Rightarrow> 'd) \<Rightarrow> 'd state \<Rightarrow> 'd state outcome" where
  "main_start strtod s =
     (let s1 = install_binops s; s2 = s1\<lparr>stderr := stderr s1 @ ''ready> ''\<rparr> in
      and_then (getNextToken strtod s2) (\<lambda>(_, s3). Returns s3))"

chapter \<open>Notions for the properties\<close>

text \<open>
  \<open>expression_of\<close> is the program from its start to the end of the first call of
  \<^verbatim>\<open>ParseExpression\<close>, on the standard input \<open>stdin\<close>: the node returned, the state dropped.
\<close>

definition expression_of :: "(string \<Rightarrow> 'd) \<Rightarrow> nat \<Rightarrow> 'd \<Rightarrow> (nat \<Rightarrow> buffer) \<Rightarrow> string
    \<Rightarrow> 'd ExprAST option outcome" where
  "expression_of strtod n zero junk stdin =
     and_then (main_start strtod (initial zero junk stdin)) (\<lambda>s.
     and_then (ParseExpression strtod n s) (\<lambda>(E, s'). Returns E))"

text \<open>
  The number a literal yields: the \<open>k\<close>-th number token of a run is made from the text
  that starts with the unwritten cell 0 of that call's \<^verbatim>\<open>NumStr\<close>.
\<close>

definition number_node :: "(string \<Rightarrow> 'd) \<Rightarrow> (nat \<Rightarrow> buffer) \<Rightarrow> nat \<Rightarrow> string \<Rightarrow> 'd ExprAST" where
  "number_node strtod junk k literal = NumberExprAST (strtod (c_cons (junk k 0) literal))"

text \<open>
  The tree of a chain \<^verbatim>\<open>1 Op 2 Op 3\<close> that groups to the left.
\<close>

definition left_chain :: "(string \<Rightarrow> 'd) \<Rightarrow> (nat \<Rightarrow> buffer) \<Rightarrow> char \<Rightarrow> 'd ExprAST" where
  "left_chain strtod junk Op =
     BinaryExprAST Op
       (BinaryExprAST Op (number_node strtod junk 0 ''1'') (number_node strtod junk (Suc 0) ''2''))
       (number_node strtod junk (Suc (Suc 0)) ''3'')"


text \<open>\<open>store buf i t\<close> is the array \<open>buf\<close> after the bytes of \<open>t\<close> are written from cell \<open>i\<close> on.\<close>

fun store :: "buffer \<Rightarrow> nat \<Rightarrow> string \<Rightarrow> buffer" where
  "store buf i [] = buf"
| "store buf i (c # cs) = store (buf(i := c)) (Suc i) cs"

text \<open>
  The characters of a number literal: digits and the dot.
\<close>

definition number_char :: "char \<Rightarrow> bool" where
  "number_char x = (isdigit (of_char x) \<or> x = CHR ''.'')"

text \<open>
  The line that \<^verbatim>\<open>Error\<close> writes, and the six descriptions the program passes to it.
\<close>

definition error_line :: "string \<Rightarrow> string" where
  "error_line Str = ''Error: '' @ Str @ [CHR 0x0A]"

definition error_messages :: "string list" where
  "error_messages =
     [''unknown token when expecting an expression'',
      ''expected ')'' @ [CHR 0x27],
      ''Expected ')' or ',' in argument list'',
      ''Expected function name in prototype'',
      ''Expected '(' in prototype'',
      ''Expected ')' in prototype'']"

text \<open>
  What a parsing function that started in \<open>s\<close> has written to \<^verbatim>\<open>stderr\<close> when it returns:
  one error line if it returns \<^verbatim>\<open>NULL\<close>, nothing if it returns a node.
\<close>

definition error_policy :: "'d state \<Rightarrow> 'a option \<times> 'd state \<Rightarrow> bool" where
  "error_policy s r =
     (case r of
        (None, s') \<Rightarrow> (\<exists>Str\<in>set error_messages. stderr s' = stderr s @ error_line Str)
      | (Some node, s') \<Rightarrow> stderr s' = stderr s)"

text \<open>
  What is left for the parser: twice the unread characters, and one more unless the
  current token is the end of the input.
\<close>

definition pending :: "'d state \<Rightarrow> nat" where
  "pending s = 2 * unread s + (if CurTok s = tok_eof then 0 else 1)"

text \<open>
  \<open>below a b\<close>: the outcome \<open>a\<close> is \<open>b\<close>, unless the budget of \<open>a\<close> ran out.
\<close>

definition below :: "'a outcome \<Rightarrow> 'a outcome \<Rightarrow> bool" where
  "below a b = (a = OutOfFuel \<or> a = b)"

text \<open>
  Example states: the program on the standard inputs \<^verbatim>\<open>3+4\<close> and \<^verbatim>\<open>def 1 2\<close>, once
  \<^verbatim>\<open>main\<close> has primed the first token. \<^verbatim>\<open>NumStr[0]\<close> holds a space at every call, and the text
  handed to \<^verbatim>\<open>strtod\<close> stands for the value it returns.
\<close>

definition spaces :: "nat \<Rightarrow> buffer" where
  "spaces k = (\<lambda>_. CHR '' '')"

definition after_3 :: "string state" where
  "after_3 =
     (install_binops (initial [] spaces ''4''))
       \<lparr>stderr := ''ready> '', LastChar := 43, CurTok := tok_number, NumVal := '' 3'', NumStr_calls := 1\<rparr>"

definition after_def :: "string state" where
  "after_def =
     (install_binops (initial [] spaces ''1 2''))
       \<lparr>stderr := ''ready> '', LastChar := 32,
         IdentifierStr := (store (\<lambda>_. CHR 0x00) 0 ''def'')(length ''def'' := CHR 0x00),
         CurTok := tok_def\<rparr>"

text \<open>
  An expression between parentheses. A comment ends at one of the two \<open>end_of_line\<close>
  characters; \<open>comments_closed e\<close> says that every \<^verbatim>\<open>#\<close> of the text \<open>e\<close> has one of them
  after it in \<open>e\<close>, so that no comment of \<open>e\<close> runs to the end of \<open>e\<close>.
\<close>

definition end_of_line :: "char \<Rightarrow> bool" where
  "end_of_line c = (c = CHR 0x0A \<or> c = CHR 0x0D)"

fun comments_closed :: "string \<Rightarrow> bool" where
  "comments_closed [] = True"
| "comments_closed (c # cs) = ((c \<noteq> CHR ''#'' \<or> list_ex end_of_line cs) \<and> comments_closed cs)"

text \<open>\<open>tree_of V\<close> is the node \<open>V\<close> without the values in its number leaves.\<close>

definition tree_of :: "'d ExprAST \<Rightarrow> unit ExprAST" where
  "tree_of = map_ExprAST (\<lambda>_. ())"

text \<open>
  \<open>paren_expression_of\<close> is the program from its start to the end of a call of
  \<^verbatim>\<open>ParseParenExpr\<close> at the first token of the standard input \<open>stdin\<close>: the node returned.
\<close>

definition paren_expression_of :: "(string \<Rightarrow> 'd) \<Rightarrow> nat \<Rightarrow> 'd \<Rightarrow> (nat \<Rightarrow> buffer) \<Rightarrow> string
    \<Rightarrow> 'd ExprAST option outcome" where
  "paren_expression_of strtod n zero junk stdin =
     and_then (main_start strtod (initial zero junk stdin)) (\<lambda>s.
     and_then (ParseParenExpr strtod n s) (\<lambda>(E, s'). Returns E))"

text \<open>The text handed to \<^verbatim>\<open>strtod\<close>, standing for the value it returns.\<close>

definition the_text :: "string \<Rightarrow> string" where
  "the_text t = t"

text \<open>\<^verbatim>\<open>NumStr[0]\<close> holding a NUL at every call.\<close>

definition nuls :: "nat \<Rightarrow> buffer" where
  "nuls k = (\<lambda>_. CHR 0x00)"

text \<open>
  Two runs side by side: run \<open>a\<close> reads a text \<open>e\<close> to its end, run \<open>b\<close> reads the same text
  followed by \<^verbatim>\<open>)\<close> and \<open>rest\<close>. \<open>before_close rest a b\<close>: both lexers are at the same place
  of \<open>e\<close> (where \<open>a\<close> has met the end of its input, \<open>b\<close> looks at the \<^verbatim>\<open>)\<close>), and the comments
  of what is left of \<open>e\<close> are closed.
\<close>

definition before_close :: "string \<Rightarrow> 'a state \<Rightarrow> 'b state \<Rightarrow> bool" where
  "before_close rest a b =
     ((if LastChar a = EOF then input a = [] \<and> LastChar b = 41 \<and> input b = rest
       else LastChar b = LastChar a \<and> input b = input a @ CHR '')'' # rest)
      \<and> (LastChar a \<noteq> 35 \<or> list_ex end_of_line (input a))
      \<and> comments_closed (input a))"

text \<open>
  \<open>same_values Rv fA fB a b\<close>: the number values of the two runs are related by \<open>Rv\<close>, the
  one in \<^verbatim>\<open>NumVal\<close> and the one that any number token to come will give, which starts at
  the unwritten cell 0 of that call's \<^verbatim>\<open>NumStr\<close>.
\<close>

definition same_values :: "('a \<Rightarrow> 'b \<Rightarrow> bool) \<Rightarrow> (string \<Rightarrow> 'a) \<Rightarrow> (string \<Rightarrow> 'b) \<Rightarrow> 'a state \<Rightarrow> 'b state \<Rightarrow> bool" where
  "same_values Rv fA fB a b =
     (Rv (NumVal a) (NumVal b) \<and>
      (\<forall>k t. Rv (fA (c_cons (NumStr_uninit a (NumStr_calls a + k) 0) t))
                (fB (c_cons (NumStr_uninit b (NumStr_calls b + k) 0) t))))"

text \<open>
  \<open>same_table a b\<close>: the two runs have the same operator table, and \<^verbatim>\<open>)\<close> is no operator
  of it.
\<close>

definition same_table :: "'a state \<Rightarrow> 'b state \<Rightarrow> bool" where
  "same_table a b =
     (BinopPrecedenceOperators b = BinopPrecedenceOperators a \<and>
      BinopPrecedencePrecedence b = BinopPrecedencePrecedence a \<and>
      GetTokPrecedence (b\<lparr>CurTok := 41\<rparr>) = - 1)"

text \<open>
  \<open>sim\<close> relates the parser states of the two runs: the same names and table, related
  values, and either the same current token at the same place of \<open>e\<close>, or run \<open>a\<close> at the
  end of its input and run \<open>b\<close> at the \<^verbatim>\<open>)\<close>, its lexer one character further.
  \<open>node_sim\<close> relates two outcomes: if the first is a node, so is the second, the two
  nodes differ in related number values only, and the states are related again.
\<close>

definition sim :: "('a \<Rightarrow> 'b \<Rightarrow> bool) \<Rightarrow> (string \<Rightarrow> 'a) \<Rightarrow> (string \<Rightarrow> 'b) \<Rightarrow> string \<Rightarrow> 'a state \<Rightarrow> 'b state \<Rightarrow> bool" where
  "sim Rv fA fB rest a b =
     (IdentifierStr b = IdentifierStr a \<and> same_values Rv fA fB a b \<and> same_table a b \<and>
      (if CurTok a = tok_eof
       then CurTok b = 41 \<and> LastChar b = (case rest of [] \<Rightarrow> EOF | c # cs \<Rightarrow> of_char c) \<and> input b = tl rest
       else CurTok b = CurTok a \<and> before_close rest a b))"

definition node_sim :: "('a \<Rightarrow> 'b \<Rightarrow> bool) \<Rightarrow> (string \<Rightarrow> 'a) \<Rightarrow> (string \<Rightarrow> 'b) \<Rightarrow> string
    \<Rightarrow> ('a ExprAST option \<times> 'a state) outcome \<Rightarrow> ('b ExprAST option \<times> 'b state) outcome \<Rightarrow> bool" where
  "node_sim Rv fA fB rest ra rb =
     (\<forall>V a'. ra = Returns (Some V, a') \<longrightarrow>
        (\<exists>V' b'. rb = Returns (Some V', b') \<and> rel_ExprAST Rv V V' \<and> sim Rv fA fB rest a' b'))"

chapter \<open>Properties\<close>

section \<open>Unfolding the program on a given input\<close>

lemma c_str_numeral:
  "c_str buf i (numeral k) =
     (if buf i = CHR 0x00 then Some []
      else (case c_str buf (Suc i) (pred_numeral k) of None \<Rightarrow> None | Some t \<Rightarrow> Some (buf i # t)))"
  by (simp add: numeral_eq_Suc)

lemma c_string_first:
  "c_string buf =
     (case c_str buf (Suc 0) 63 of
        None \<Rightarrow> (if buf 0 = CHR 0x00 then Some [] else None)
      | Some t \<Rightarrow> Some (c_cons (buf 0) t))"
  unfolding c_string_def
  using c_str.simps(2) [of buf 0 63] by (simp add: c_cons_def split: option.splits)

lemma binop_scan_numeral:
  "binop_scan s i (numeral k) =
     (if CurTok s = of_char (BinopPrecedenceOperators s i) then
        (let TokPrec = BinopPrecedencePrecedence s i in if TokPrec \<le> 0 then - 1 else TokPrec)
      else binop_scan s (Suc i) (pred_numeral k))"
  by (simp add: numeral_eq_Suc)

lemma and_then_weak_cong: "m = m' \<Longrightarrow> and_then m f = and_then m' f"
  by simp


text \<open>
  The equations that unfold the lexer and the parser on a concrete input. The loops unfold
  only as far as their tests decide.
\<close>

lemmas lexer_unfold =
  gettok.simps skip_space.simps ident_loop.simps num_loop.simps comment_loop.simps
  read_LastChar_def getchar_def Let_def getNextToken_def
  isalpha_def isdigit_def isspace_def isalnum_def isascii_def EOF_def
  c_string_first c_str_numeral strcmp_eq_def char_of_def
  tok_eof_def tok_def_def tok_extern_def tok_identifier_def tok_number_def

lemmas parser_unfold =
  GetTokPrecedence_def binop_scan_numeral NUM_BINOPS_def install_binops_def initial_def main_start_def
  Error_def ErrorP_def ParseNumberExpr_def proto_args.simps ParsePrototype_def
  ParseDefinition_def ParseTopLevelExpr_def ParseExtern_def

lemma fuel_10: "n + 10 = Suc (Suc (Suc (Suc (Suc (Suc (Suc (Suc (Suc (Suc n)))))))))"
  by simp

lemma fuel_numeral_10: "(10::nat) = Suc (Suc (Suc (Suc (Suc (Suc (Suc (Suc (Suc (Suc 0)))))))))"
  by simp

lemmas run_unfold = expression_of_def fuel_10 lexer_unfold parser_unfold

section \<open>The loops of the lexer\<close>

lemma read_LastChar_Cons:
  "input s = c # cs \<Longrightarrow> read_LastChar s = s\<lparr>input := cs, LastChar := of_char c\<rparr>"
  by (simp add: read_LastChar_def getchar_def)

lemma read_LastChar_Nil:
  "input s = [] \<Longrightarrow> read_LastChar s = s\<lparr>LastChar := EOF\<rparr>"
  by (simp add: read_LastChar_def getchar_def)

lemma of_char_eq_10: "(of_char c :: int) = 10 \<longleftrightarrow> c = CHR 0x0A"
proof -
  have "(of_char (CHR 0x0A) :: int) = 10" by simp
  then show ?thesis by (metis of_char_eq_iff)
qed

lemma of_char_eq_13: "(of_char c :: int) = 13 \<longleftrightarrow> c = CHR 0x0D"
proof -
  have "(of_char (CHR 0x0D) :: int) = 13" by simp
  then show ?thesis by (metis of_char_eq_iff)
qed

lemma of_char_eq_46: "(of_char c :: int) = 46 \<longleftrightarrow> c = CHR ''.''"
proof -
  have "(of_char (CHR ''.'') :: int) = 46" by simp
  then show ?thesis by (metis of_char_eq_iff)
qed

lemma skip_space_step: "isspace (LastChar s) \<Longrightarrow> skip_space s = skip_space (read_LastChar s)"
  using skip_space.simps [of s] by simp

lemma skip_space_stop: "\<not> isspace (LastChar s) \<Longrightarrow> skip_space s = s"
  using skip_space.simps [of s] by simp

lemma gettok_skip_space: "skip_space a = skip_space b \<Longrightarrow> gettok strtod a = gettok strtod b"
  using gettok.simps [of strtod a] gettok.simps [of strtod b] by simp

lemma store_below: "j < i \<Longrightarrow> store buf i t j = buf j"
  by (induction t arbitrary: buf i) simp_all

lemma c_str_store:
  "\<forall>x\<in>set t. x \<noteq> CHR 0x00 \<Longrightarrow> length t < n \<Longrightarrow>
     c_str ((store buf i t)(i + length t := CHR 0x00)) i n = Some t"
proof (induction t arbitrary: buf i n)
  case Nil
  then obtain m where "n = Suc m"
    by (cases n) auto
  then show ?case by simp
next
  case (Cons c t)
  from Cons.prems obtain m where n: "n = Suc m" and m: "length t < m"
    by (cases n) auto
  define B where "B = (store (buf(i := c)) (Suc i) t)(Suc i + length t := CHR 0x00)"
  have cell: "B i = c"
    by (simp add: B_def store_below)
  from Cons.prems m have "c_str B (Suc i) m = Some t"
    unfolding B_def by (intro Cons.IH) simp_all
  with cell Cons.prems have "c_str B i (Suc m) = Some (c # t)"
    by simp
  moreover have "(store buf i (c # t))(i + length (c # t) := CHR 0x00) = B"
    by (simp add: B_def)
  ultimately show ?case
    using n by simp
qed

section \<open>Operator precedences\<close>

text \<open>
  C5. Once \<^verbatim>\<open>main\<close> has installed the standard operators, \<^verbatim>\<open>GetTokPrecedence\<close> answers 10
  for the current token \<^verbatim>\<open>'<'\<close>, 20 for \<^verbatim>\<open>'+'\<close>, 30 for \<^verbatim>\<open>'-'\<close>, 40 for \<^verbatim>\<open>'*'\<close>, and - 1 for
  every other current token, whatever integer it is.
\<close>

theorem GetTokPrecedence_standard_table:
  "GetTokPrecedence ((install_binops s)\<lparr>CurTok := t\<rparr>) =
     (if t = 60 then 10 else if t = 43 then 20 else if t = 45 then 30 else if t = 42 then 40 else - 1)"
  by (simp add: GetTokPrecedence_def binop_scan_numeral NUM_BINOPS_def install_binops_def isascii_def)

section \<open>Number tokens\<close>

lemma number_char_LastChar: "(isdigit (of_char x) \<or> (of_char x :: int) = 46) = number_char x"
  by (simp add: number_char_def of_char_eq_46)

lemma num_loop_reads:
  "input s = cs @ rest \<Longrightarrow> LastChar s = of_char c \<Longrightarrow> \<forall>x\<in>set cs. number_char x \<Longrightarrow>
   i + length cs < 64 \<Longrightarrow> (case rest of [] \<Rightarrow> True | r # _ \<Rightarrow> \<not> number_char r) \<Longrightarrow>
   num_loop NumStr i s =
     Returns (store NumStr i (c # cs), i + length (c # cs),
       s\<lparr>input := tl rest, LastChar := (case rest of [] \<Rightarrow> EOF | r # _ \<Rightarrow> of_char r)\<rparr>)"
proof (induction cs arbitrary: s i NumStr c)
  case Nil
  show ?case
  proof (cases rest)
    case Nil
    with Nil.prems have "read_LastChar s = s\<lparr>LastChar := EOF\<rparr>" and "s\<lparr>input := []\<rparr> = s"
      by (simp_all add: read_LastChar_Nil)
    with Nil Nil.prems show ?thesis
      using num_loop.simps [of NumStr i s] by (simp add: Let_def isdigit_def EOF_def fun_upd_def)
  next
    case (Cons r rest')
    with Nil.prems have "read_LastChar s = s\<lparr>input := rest', LastChar := of_char r\<rparr>"
      by (simp add: read_LastChar_Cons)
    with Cons Nil.prems show ?thesis
      using num_loop.simps [of NumStr i s] by (simp add: Let_def number_char_LastChar fun_upd_def)
  qed
next
  case (Cons c' cs)
  let ?s1 = "s\<lparr>input := cs @ rest, LastChar := of_char c'\<rparr>"
  from Cons.prems have r: "read_LastChar s = ?s1"
    by (simp add: read_LastChar_Cons)
  from Cons.prems have "number_char c'" "i < 64"
    by simp_all
  with r Cons.prems have "num_loop NumStr i s = num_loop (NumStr(i := c)) (i + 1) ?s1"
    using num_loop.simps [of NumStr i s] by (simp add: Let_def number_char_LastChar)
  also from Cons.prems have "num_loop (NumStr(i := c)) (i + 1) ?s1 =
     Returns (store (NumStr(i := c)) (i + 1) (c' # cs), i + 1 + length (c' # cs),
       ?s1\<lparr>input := tl rest, LastChar := (case rest of [] \<Rightarrow> EOF | r # _ \<Rightarrow> of_char r)\<rparr>)"
    by (intro Cons.IH) simp_all
  finally show ?case by simp
qed

lemma number_char_not_NUL: "number_char x \<Longrightarrow> x \<noteq> CHR 0x00"
  by (auto simp: number_char_def isdigit_def)

text \<open>
  For every literal \<open>w\<close> of digits and dots, at most 62 characters, at the start of a token:
  \<^verbatim>\<open>gettok\<close> returns the number token, and \<^verbatim>\<open>NumVal\<close> is the parse of the text made of the
  unwritten cell \<^verbatim>\<open>NumStr[0]\<close> and then \<open>w\<close>.
\<close>

lemma gettok_number_general:
  assumes sp: "isspace (LastChar s)"
    and inp: "input s = w @ rest"
    and w: "w \<noteq> []" "\<forall>x\<in>set w. number_char x"
    and len: "length w \<le> 62"
    and rest: "case rest of [] \<Rightarrow> True | r # _ \<Rightarrow> \<not> number_char r"
  shows "gettok strtod s =
      Returns (tok_number,
         s\<lparr>input := tl rest, LastChar := (case rest of [] \<Rightarrow> EOF | r # _ \<Rightarrow> of_char r),
           NumStr_calls := NumStr_calls s + 1,
           NumVal := strtod (c_cons (NumStr_uninit s (NumStr_calls s) 0) w)\<rparr>)"
proof -
  from w(1) obtain c cs where wc: "w = c # cs"
    by (cases w) auto
  let ?s = "s\<lparr>input := cs @ rest, LastChar := of_char c\<rparr>"
  let ?a = "?s\<lparr>NumStr_calls := NumStr_calls ?s + 1\<rparr>"
  let ?U = "NumStr_uninit s (NumStr_calls s)"
  let ?buf = "(store ?U 1 w)(1 + length w := CHR 0x00)"
  from w wc have c: "number_char c" and cs: "\<forall>x\<in>set cs. number_char x"
    by simp_all
  from c have cls: "\<not> isspace (of_char c)" "\<not> isalpha (of_char c)" "isdigit (of_char c) \<or> (of_char c :: int) = 46"
    by (auto simp: number_char_def isdigit_def isspace_def isalpha_def)
  have "skip_space s = skip_space (read_LastChar s)"
    using sp by (rule skip_space_step)
  also have "read_LastChar s = ?s"
    using inp wc by (simp add: read_LastChar_Cons)
  also have "skip_space ?s = ?s"
    using cls by (intro skip_space_stop) simp
  finally have skip: "skip_space s = ?s" .
  have loop: "num_loop ?U 1 ?a =
     Returns (store ?U 1 (c # cs), 1 + length (c # cs),
       ?a\<lparr>input := tl rest, LastChar := (case rest of [] \<Rightarrow> EOF | r # _ \<Rightarrow> of_char r)\<rparr>)"
    using cs len rest wc by (intro num_loop_reads) simp_all
  have "\<forall>x\<in>set w. x \<noteq> CHR 0x00"
    using w by (auto simp: number_char_not_NUL)
  with len have "c_str ?buf (Suc 0) 63 = Some w"
    using c_str_store [of w 63 ?U 1] by simp
  moreover have "?buf 0 = ?U 0"
    by (simp add: store_below)
  ultimately have str: "c_string ?buf = Some (c_cons (?U 0) w)"
    by (simp add: c_string_first)
  show ?thesis
    using gettok.simps [of strtod s] skip cls loop len str wc
    by (simp add: Let_def)
qed

text \<open>
  C1. On the input \<^verbatim>\<open>3.14\<close>, \<^verbatim>\<open>gettok\<close> returns the number token, and the text it hands to
  \<^verbatim>\<open>strtod\<close> starts with the cell \<^verbatim>\<open>NumStr[0]\<close>, which it never writes: the literal sits in
  the cells from 1 on. \<^verbatim>\<open>NumVal\<close> is the parse of that text, not of the literal.
\<close>

theorem gettok_number_text:
  "gettok strtod (s\<lparr>LastChar := 32, input := ''3.14''\<rparr>) =
     Returns (tok_number,
       s\<lparr>LastChar := EOF, input := [], NumStr_calls := Suc (NumStr_calls s),
         NumVal := strtod (c_cons (NumStr_uninit s (NumStr_calls s) 0) ''3.14'')\<rparr>)"
  by (simp add: lexer_unfold cong: and_then_weak_cong)

section \<open>Identifiers and keywords\<close>

lemma alnum_not_NUL: "isalnum (of_char x) \<Longrightarrow> x \<noteq> CHR 0x00"
  by (auto simp: isalnum_def isalpha_def isdigit_def)

lemma ident_loop_reads:
  "input s = cs @ rest \<Longrightarrow> \<forall>x\<in>set cs. isalnum (of_char x) \<Longrightarrow> i + length cs < 64 \<Longrightarrow>
   (case rest of [] \<Rightarrow> True | r # _ \<Rightarrow> \<not> isalnum (of_char r)) \<Longrightarrow>
   ident_loop i s =
     Returns (i + length cs,
       s\<lparr>input := tl rest, LastChar := (case rest of [] \<Rightarrow> EOF | r # _ \<Rightarrow> of_char r),
         IdentifierStr := store (IdentifierStr s) i cs\<rparr>)"
proof (induction cs arbitrary: s i)
  case Nil
  show ?case
  proof (cases rest)
    case Nil
    with Nil.prems have "read_LastChar s = s\<lparr>LastChar := EOF\<rparr>" and "s\<lparr>input := []\<rparr> = s"
      by (simp_all add: read_LastChar_Nil)
    with Nil show ?thesis
      using ident_loop.simps [of i s] by (simp add: Let_def isalnum_def isalpha_def isdigit_def EOF_def)
  next
    case (Cons r rest')
    with Nil.prems have "read_LastChar s = s\<lparr>input := rest', LastChar := of_char r\<rparr>"
      by (simp add: read_LastChar_Cons)
    with Cons Nil.prems show ?thesis
      using ident_loop.simps [of i s] by (simp add: Let_def)
  qed
next
  case (Cons c cs)
  let ?s1 = "s\<lparr>input := cs @ rest, LastChar := of_char c\<rparr>"
  let ?s2 = "?s1\<lparr>IdentifierStr := (IdentifierStr ?s1)(i := char_of (LastChar ?s1))\<rparr>"
  from Cons.prems have r: "read_LastChar s = ?s1"
    by (simp add: read_LastChar_Cons)
  from Cons.prems have "isalnum (LastChar ?s1)" "i < 64"
    by simp_all
  with r have "ident_loop i s = ident_loop (i + 1) ?s2"
    using ident_loop.simps [of i s] by (simp add: Let_def)
  also from Cons.prems have "ident_loop (i + 1) ?s2 =
     Returns (i + 1 + length cs,
       ?s2\<lparr>input := tl rest, LastChar := (case rest of [] \<Rightarrow> EOF | r # _ \<Rightarrow> of_char r),
         IdentifierStr := store (IdentifierStr ?s2) (i + 1) cs\<rparr>)"
    by (intro Cons.IH) simp_all
  finally show ?case by simp
qed

text \<open>
  C4. Let the lookahead be white space and the input start with a text \<open>w\<close> that is a
  letter followed by letters and digits, at most 63 characters, and that the end of the
  input or a character other than a letter or digit follows. Then \<^verbatim>\<open>gettok\<close> returns the
  keyword token for \<^verbatim>\<open>def\<close> and for \<^verbatim>\<open>extern\<close> and the identifier token for every other \<open>w\<close>,
  and leaves \<open>w\<close> as the C string of \<^verbatim>\<open>IdentifierStr\<close>.
\<close>

theorem gettok_identifier:
  assumes sp: "isspace (LastChar s)"
    and inp: "input s = w @ rest"
    and w: "w \<noteq> []" "isalpha (of_char (hd w))" "\<forall>x\<in>set (tl w). isalnum (of_char x)"
    and len: "length w \<le> 63"
    and rest: "case rest of [] \<Rightarrow> True | r # _ \<Rightarrow> \<not> isalnum (of_char r)"
  shows "gettok strtod s =
      Returns
        (if w = ''def'' then tok_def else if w = ''extern'' then tok_extern else tok_identifier,
         s\<lparr>input := tl rest, LastChar := (case rest of [] \<Rightarrow> EOF | r # _ \<Rightarrow> of_char r),
           IdentifierStr := (store (IdentifierStr s) 0 w)(length w := CHR 0x00)\<rparr>)
    \<and> c_string ((store (IdentifierStr s) 0 w)(length w := CHR 0x00)) = Some w"
proof -
  from w(1) obtain c cs where wc: "w = c # cs"
    by (cases w) auto
  let ?s = "s\<lparr>input := cs @ rest, LastChar := of_char c\<rparr>"
  let ?a = "?s\<lparr>IdentifierStr := (IdentifierStr ?s)(0 := char_of (LastChar ?s))\<rparr>"
  let ?buf = "(store (IdentifierStr s) 0 w)(length w := CHR 0x00)"
  let ?s' = "s\<lparr>input := tl rest, LastChar := (case rest of [] \<Rightarrow> EOF | r # _ \<Rightarrow> of_char r),
           IdentifierStr := ?buf\<rparr>"
  from w wc have alpha: "isalpha (of_char c)" and alnum: "\<forall>x\<in>set cs. isalnum (of_char x)"
    by simp_all
  have "\<forall>x\<in>set w. x \<noteq> CHR 0x00"
    using alpha alnum wc by (auto simp: alnum_not_NUL isalnum_def)
  with len have str: "c_string ?buf = Some w"
    using c_str_store [of w 64 "IdentifierStr s" 0] by (simp add: c_string_def)
  have "skip_space s = skip_space (read_LastChar s)"
    using sp by (rule skip_space_step)
  also have "read_LastChar s = ?s"
    using inp wc by (simp add: read_LastChar_Cons)
  also have "skip_space ?s = ?s"
    using alpha by (intro skip_space_stop) (auto simp: isspace_def isalpha_def)
  finally have skip: "skip_space s = ?s" .
  have loop: "ident_loop 1 ?a =
     Returns (1 + length cs,
       ?a\<lparr>input := tl rest, LastChar := (case rest of [] \<Rightarrow> EOF | r # _ \<Rightarrow> of_char r),
         IdentifierStr := store (IdentifierStr ?a) 1 cs\<rparr>)"
    using alnum len rest wc by (intro ident_loop_reads) simp_all
  have "gettok strtod s =
      Returns
        (if w = ''def'' then tok_def else if w = ''extern'' then tok_extern else tok_identifier, ?s')"
    using gettok.simps [of strtod s] skip alpha loop len str wc
    by (simp add: Let_def strcmp_eq_def)
  with str show ?thesis by simp
qed

theorem gettok_identifier_witness:
  "gettok (\<lambda>t. t) ((initial [] spaces [])\<lparr>input := ''foo1+2''\<rparr>) =
     Returns (tok_identifier,
       (initial [] spaces [])\<lparr>input := ''2'', LastChar := 43,
         IdentifierStr := (store (\<lambda>_. CHR 0x00) 0 ''foo1'')(length ''foo1'' := CHR 0x00)\<rparr>)
   \<and> c_string ((store (\<lambda>_. CHR 0x00) 0 ''foo1'')(length ''foo1'' := CHR 0x00)) = Some ''foo1''
   \<and> gettok (\<lambda>t. t) ((initial [] spaces [])\<lparr>input := ''extern''\<rparr>) =
     Returns (tok_extern,
       (initial [] spaces [])\<lparr>input := [], LastChar := EOF,
         IdentifierStr := (store (\<lambda>_. CHR 0x00) 0 ''extern'')(length ''extern'' := CHR 0x00)\<rparr>)
   \<and> gettok (\<lambda>t. t) ((initial [] spaces [])\<lparr>input := ''def(''\<rparr>) =
     Returns (tok_def,
       (initial [] spaces [])\<lparr>input := [], LastChar := 40,
         IdentifierStr := (store (\<lambda>_. CHR 0x00) 0 ''def'')(length ''def'' := CHR 0x00)\<rparr>)"
  using gettok_identifier [of "(initial [] spaces [])\<lparr>input := ''foo1+2''\<rparr>" "''foo1''" "''+2''" "\<lambda>t. t"]
    gettok_identifier [of "(initial [] spaces [])\<lparr>input := ''extern''\<rparr>" "''extern''" "[]" "\<lambda>t. t"]
    gettok_identifier [of "(initial [] spaces [])\<lparr>input := ''def(''\<rparr>" "''def''" "''(''" "\<lambda>t. t"]
  by (simp add: initial_def isspace_def isalpha_def isalnum_def isdigit_def)

section \<open>Comments\<close>

lemma comment_loop_line:
  "input s = cmt @ nl # rest \<Longrightarrow> \<forall>c\<in>set cmt. c \<noteq> CHR 0x0A \<and> c \<noteq> CHR 0x0D \<Longrightarrow>
   nl = CHR 0x0A \<or> nl = CHR 0x0D \<Longrightarrow>
   comment_loop s = s\<lparr>input := rest, LastChar := of_char nl\<rparr>"
proof (induction cmt arbitrary: s)
  case Nil
  then have "read_LastChar s = s\<lparr>input := rest, LastChar := of_char nl\<rparr>"
    by (simp add: read_LastChar_Cons)
  moreover from Nil have "(of_char nl :: int) = 10 \<or> (of_char nl :: int) = 13"
    by (simp add: of_char_eq_10 of_char_eq_13)
  ultimately show ?case
    using comment_loop.simps [of s] by (auto simp: Let_def)
next
  case (Cons c cmt)
  let ?s1 = "s\<lparr>input := cmt @ nl # rest, LastChar := of_char c\<rparr>"
  from Cons.prems have r: "read_LastChar s = ?s1"
    by (simp add: read_LastChar_Cons)
  from Cons.prems have "(of_char c :: int) \<noteq> EOF \<and> (of_char c :: int) \<noteq> 10 \<and> (of_char c :: int) \<noteq> 13"
    by (simp add: of_char_not_EOF of_char_eq_10 of_char_eq_13)
  with r have "comment_loop s = comment_loop ?s1"
    using comment_loop.simps [of s] by (simp add: Let_def)
  also from Cons.prems have "comment_loop ?s1 = ?s1\<lparr>input := rest, LastChar := of_char nl\<rparr>"
    by (intro Cons.IH) simp_all
  finally show ?case by simp
qed







section \<open>Expressions on given inputs\<close>

text \<open>
  C2. With the standard operators, \<^verbatim>\<open>1 + 2 * 3\<close> parses to the sum of the first number and
  the product of the other two, and \<^verbatim>\<open>1 * 2 + 3\<close> to the sum of the product and the third
  number, for every recursion budget from 10 on. The values in the three number nodes are
  the parses of the texts that start at \<^verbatim>\<open>NumStr[0]\<close>, which need not be 1, 2 and 3.
\<close>

theorem precedence_climbing_examples:
  "expression_of strtod (n + 10) zero junk ''1 + 2 * 3'' =
     Returns (Some
       (BinaryExprAST CHR ''+''
          (number_node strtod junk 0 ''1'')
          (BinaryExprAST CHR ''*''
             (number_node strtod junk (Suc 0) ''2'')
             (number_node strtod junk (Suc (Suc 0)) ''3''))))
   \<and> expression_of strtod (n + 10) zero junk ''1 * 2 + 3'' =
     Returns (Some
       (BinaryExprAST CHR ''+''
          (BinaryExprAST CHR ''*''
             (number_node strtod junk 0 ''1'')
             (number_node strtod junk (Suc 0) ''2''))
          (number_node strtod junk (Suc (Suc 0)) ''3'')))"
proof
  show "expression_of strtod (n + 10) zero junk ''1 + 2 * 3'' =
     Returns (Some
       (BinaryExprAST CHR ''+''
          (number_node strtod junk 0 ''1'')
          (BinaryExprAST CHR ''*''
             (number_node strtod junk (Suc 0) ''2'')
             (number_node strtod junk (Suc (Suc 0)) ''3''))))"
    by (simp add: run_unfold number_node_def cong: and_then_weak_cong)
  show "expression_of strtod (n + 10) zero junk ''1 * 2 + 3'' =
     Returns (Some
       (BinaryExprAST CHR ''+''
          (BinaryExprAST CHR ''*''
             (number_node strtod junk 0 ''1'')
             (number_node strtod junk (Suc 0) ''2''))
          (number_node strtod junk (Suc (Suc 0)) ''3'')))"
    by (simp add: run_unfold number_node_def cong: and_then_weak_cong)
qed

text \<open>
  C3. A chain of two equal operators groups to the left, for each of the four standard
  operators: \<^verbatim>\<open>1 - 2 - 3\<close> parses to the difference of (the difference of the first two
  numbers) and the third. The values in the number nodes are again those of the texts
  that start at \<^verbatim>\<open>NumStr[0]\<close>.
\<close>

theorem equal_precedence_groups_left:
  "expression_of strtod (n + 10) zero junk ''1 - 2 - 3'' = Returns (Some (left_chain strtod junk CHR ''-''))
   \<and> expression_of strtod (n + 10) zero junk ''1 + 2 + 3'' = Returns (Some (left_chain strtod junk CHR ''+''))
   \<and> expression_of strtod (n + 10) zero junk ''1 * 2 * 3'' = Returns (Some (left_chain strtod junk CHR ''*''))
   \<and> expression_of strtod (n + 10) zero junk ''1 < 2 < 3'' = Returns (Some (left_chain strtod junk CHR ''<''))"
proof (intro conjI)
  show "expression_of strtod (n + 10) zero junk ''1 - 2 - 3'' = Returns (Some (left_chain strtod junk CHR ''-''))"
    by (simp add: run_unfold number_node_def left_chain_def cong: and_then_weak_cong)
  show "expression_of strtod (n + 10) zero junk ''1 + 2 + 3'' = Returns (Some (left_chain strtod junk CHR ''+''))"
    by (simp add: run_unfold number_node_def left_chain_def cong: and_then_weak_cong)
  show "expression_of strtod (n + 10) zero junk ''1 * 2 * 3'' = Returns (Some (left_chain strtod junk CHR ''*''))"
    by (simp add: run_unfold number_node_def left_chain_def cong: and_then_weak_cong)
  show "expression_of strtod (n + 10) zero junk ''1 < 2 < 3'' = Returns (Some (left_chain strtod junk CHR ''<''))"
    by (simp add: run_unfold number_node_def left_chain_def cong: and_then_weak_cong)
qed

text \<open>
  C6. An identifier that no \<^verbatim>\<open>(\<close> follows parses to a variable reference of that name;
  \<^verbatim>\<open>foo()\<close> parses to a call of \<^verbatim>\<open>foo\<close> with no argument and \<^verbatim>\<open>NumArgs\<close> 0; \<^verbatim>\<open>foo(1, 2+3)\<close>
  parses to a call of \<^verbatim>\<open>foo\<close> with \<^verbatim>\<open>NumArgs\<close> 2 whose arguments are, in source order, a
  number node and the sum of two number nodes. The values in the number nodes are those
  of the texts that start at \<^verbatim>\<open>NumStr[0]\<close>.
\<close>

theorem identifier_expression_examples:
  "expression_of strtod (n + 10) zero junk ''foo'' = Returns (Some (VariableExprAST ''foo''))
   \<and> expression_of strtod (n + 10) zero junk ''foo bar'' = Returns (Some (VariableExprAST ''foo''))
   \<and> expression_of strtod (n + 10) zero junk ''foo()'' = Returns (Some (CallExprAST ''foo'' [] 0))
   \<and> expression_of strtod (n + 10) zero junk ''foo(1, 2+3)'' =
       Returns (Some
         (CallExprAST ''foo''
            [number_node strtod junk 0 ''1'',
             BinaryExprAST CHR ''+''
               (number_node strtod junk (Suc 0) ''2'')
               (number_node strtod junk (Suc (Suc 0)) ''3'')]
            2))"
proof (intro conjI)
  show "expression_of strtod (n + 10) zero junk ''foo'' = Returns (Some (VariableExprAST ''foo''))"
    by (simp add: run_unfold cong: and_then_weak_cong)
  show "expression_of strtod (n + 10) zero junk ''foo bar'' = Returns (Some (VariableExprAST ''foo''))"
    by (simp add: run_unfold cong: and_then_weak_cong)
  show "expression_of strtod (n + 10) zero junk ''foo()'' = Returns (Some (CallExprAST ''foo'' [] 0))"
    by (simp add: run_unfold cong: and_then_weak_cong)
  show "expression_of strtod (n + 10) zero junk ''foo(1, 2+3)'' =
       Returns (Some
         (CallExprAST ''foo''
            [number_node strtod junk 0 ''1'',
             BinaryExprAST CHR ''+''
               (number_node strtod junk (Suc 0) ''2'')
               (number_node strtod junk (Suc (Suc 0)) ''3'')]
            2))"
    by (simp add: run_unfold number_node_def cong: and_then_weak_cong)
qed

section \<open>Recursion budget\<close>

lemma and_then_not_OutOfFuel:
  "m \<noteq> OutOfFuel \<Longrightarrow> (\<And>x. m = Returns x \<Longrightarrow> f x \<noteq> OutOfFuel) \<Longrightarrow> and_then m f \<noteq> OutOfFuel"
  by (cases m) simp_all

lemma and_then_OutOfFuel_iff:
  "and_then m f = OutOfFuel \<longleftrightarrow> m = OutOfFuel \<or> (\<exists>x. m = Returns x \<and> f x = OutOfFuel)"
  by (cases m) simp_all

lemma ident_loop_not_OutOfFuel: "ident_loop i s \<noteq> OutOfFuel"
proof (induction i s rule: ident_loop.induct)
  case (1 charIndex s)
  then show ?case
    using ident_loop.simps [of charIndex s] by (auto simp: Let_def)
qed

lemma num_loop_not_OutOfFuel: "num_loop b i s \<noteq> OutOfFuel"
proof (induction b i s rule: num_loop.induct)
  case (1 NumStr charIndex s)
  let ?s1 = "read_LastChar s"
  let ?b = "NumStr(charIndex := char_of (LastChar s))"
  show ?case
  proof (cases "charIndex < 64")
    case lt: True
    show ?thesis
    proof (cases "isdigit (LastChar ?s1) \<or> LastChar ?s1 = 46")
      case True
      with lt have "num_loop NumStr charIndex s = num_loop ?b (charIndex + 1) ?s1"
        using num_loop.simps [of NumStr charIndex s] by (simp add: Let_def)
      with "1.IH" [OF lt refl refl True] show ?thesis by (simp add: fun_upd_def)
    next
      case False
      with lt show ?thesis
        using num_loop.simps [of NumStr charIndex s] by (simp add: Let_def)
    qed
  next
    case False
    then show ?thesis
      using num_loop.simps [of NumStr charIndex s] by simp
  qed
qed

lemma gettok_not_OutOfFuel: "gettok strtod s0 \<noteq> OutOfFuel"
proof (induction strtod s0 rule: gettok.induct)
  case (1 strtod s0)
  let ?s = "skip_space s0"
  consider (ident) "isalpha (LastChar ?s)"
    | (num) "\<not> isalpha (LastChar ?s)" "isdigit (LastChar ?s) \<or> LastChar ?s = 46"
    | (retry) "\<not> isalpha (LastChar ?s)" "\<not> (isdigit (LastChar ?s) \<or> LastChar ?s = 46)"
        "LastChar ?s = 35 \<and> LastChar (comment_loop ?s) \<noteq> EOF"
    | (other) "\<not> isalpha (LastChar ?s)" "\<not> (isdigit (LastChar ?s) \<or> LastChar ?s = 46)"
        "\<not> (LastChar ?s = 35 \<and> LastChar (comment_loop ?s) \<noteq> EOF)"
    by blast
  then show ?case
  proof cases
    case ident
    let ?a = "?s\<lparr>IdentifierStr := (IdentifierStr ?s)(0 := char_of (LastChar ?s))\<rparr>"
    from ident show ?thesis
      using gettok.simps [of strtod s0] ident_loop_not_OutOfFuel [of 1 ?a]
      by (cases "ident_loop 1 ?a") (auto simp: Let_def split: if_splits)
  next
    case num
    let ?a = "?s\<lparr>NumStr_calls := NumStr_calls ?s + 1\<rparr>"
    from num show ?thesis
      using gettok.simps [of strtod s0] num_loop_not_OutOfFuel [of "NumStr_uninit ?s (NumStr_calls ?s)" 1 ?a]
      by (cases "num_loop (NumStr_uninit ?s (NumStr_calls ?s)) 1 ?a")
        (auto simp: Let_def split: option.splits if_splits)
  next
    case retry
    then have "gettok strtod s0 = gettok strtod (comment_loop ?s)"
      using gettok.simps [of strtod s0] by (simp add: Let_def)
    with "1.IH" [OF refl retry] show ?thesis by simp
  next
    case other
    then show ?thesis
      using gettok.simps [of strtod s0] by (auto simp: Let_def)
  qed
qed

lemma getNextToken_not_OutOfFuel: "getNextToken strtod s \<noteq> OutOfFuel"
  unfolding getNextToken_def
  by (rule and_then_not_OutOfFuel) (auto simp: gettok_not_OutOfFuel)

lemma proto_args_not_OutOfFuel: "proto_args strtod Args NumArgs s \<noteq> OutOfFuel"
proof (induction strtod Args NumArgs s rule: proto_args.induct)
  case (1 strtod Args NumArgs s)
  show ?case
  proof (cases "getNextToken strtod s")
    case OutOfFuel
    then show ?thesis by (simp add: getNextToken_not_OutOfFuel)
  next
    case Undefined
    then show ?thesis
      using proto_args.simps [of strtod Args NumArgs s] by simp
  next
    case (Returns x)
    obtain t s1 where x: "x = (t, s1)" by (cases x)
    show ?thesis
    proof (cases "t = tok_identifier \<and> 0 \<le> NumArgs \<and> NumArgs < 64")
      case True
      show ?thesis
      proof (cases "c_string (IdentifierStr s1)")
        case None
        with True Returns x show ?thesis
          using proto_args.simps [of strtod Args NumArgs s] by simp
      next
        case (Some a)
        from True Returns x Some have "proto_args strtod Args NumArgs s = proto_args strtod (Args @ [a]) (NumArgs + 1) s1"
          using proto_args.simps [of strtod Args NumArgs s] by simp
        moreover from True Returns x Some have "proto_args strtod (Args @ [a]) (NumArgs + 1) s1 \<noteq> OutOfFuel"
          by (intro "1.IH" [of x t s1 a]) simp_all
        ultimately show ?thesis by simp
      qed
    next
      case False
      with Returns x show ?thesis
        using proto_args.simps [of strtod Args NumArgs s] by auto
    qed
  qed
qed

lemma ParsePrototype_not_OutOfFuel: "ParsePrototype strtod s \<noteq> OutOfFuel"
  by (auto simp: ParsePrototype_def and_then_OutOfFuel_iff getNextToken_not_OutOfFuel
      proto_args_not_OutOfFuel split: option.splits if_splits)

lemma pending_stderr [simp]: "pending (s\<lparr>stderr := e\<rparr>) = pending s"
  by (simp add: pending_def unread_def)

lemma pending_getNextToken:
  assumes "getNextToken strtod s = Returns (t, s')"
  shows "pending s' \<le> pending s" and "CurTok s \<noteq> tok_eof \<Longrightarrow> pending s' < pending s"
    and "CurTok s' = t"
proof -
  from unread_getNextToken [OF assms]
  have u: "unread s' \<le> unread s" and v: "t \<noteq> tok_eof \<longrightarrow> unread s' < unread s" and c: "CurTok s' = t"
    by simp_all
  from u v c show "pending s' \<le> pending s"
    by (auto simp: pending_def)
  from u v c show "pending s' < pending s" if "CurTok s \<noteq> tok_eof"
    using that by (auto simp: pending_def)
  from c show "CurTok s' = t" .
qed

lemma pending_Error: "Error Str s = (r, s') \<Longrightarrow> r = None \<and> pending s' = pending s"
  by (auto simp: Error_def)

lemma expression_pending:
  "(\<forall>s r s'. ParsePrimary strtod n s = Returns (r, s') \<longrightarrow>
      pending s' \<le> pending s \<and> (r \<noteq> None \<longrightarrow> pending s' < pending s)) \<and>
   (\<forall>s r s'. ParseParenExpr strtod n s = Returns (r, s') \<longrightarrow>
      pending s' \<le> pending s \<and> (CurTok s \<noteq> tok_eof \<longrightarrow> pending s' < pending s)) \<and>
   (\<forall>s r s'. ParseIdentifierExpr strtod n s = Returns (r, s') \<longrightarrow>
      pending s' \<le> pending s \<and> (CurTok s \<noteq> tok_eof \<longrightarrow> pending s' < pending s)) \<and>
   (\<forall>s r s' Callee Args NumArgs. ParseCallArgs strtod n Callee Args NumArgs s = Returns (r, s') \<longrightarrow>
      pending s' \<le> pending s) \<and>
   (\<forall>s r s' ExprPrec LHS. ParseBinOpRHS strtod n ExprPrec LHS s = Returns (r, s') \<longrightarrow>
      pending s' \<le> pending s) \<and>
   (\<forall>s r s'. ParseExpression strtod n s = Returns (r, s') \<longrightarrow>
      pending s' \<le> pending s \<and> (r \<noteq> None \<longrightarrow> pending s' < pending s))"
proof (induction n)
  case 0
  show ?case by simp
next
  case (Suc n)
  from Suc have primary: "\<And>s r s'. ParsePrimary strtod n s = Returns (r, s') \<Longrightarrow>
        pending s' \<le> pending s \<and> (r \<noteq> None \<longrightarrow> pending s' < pending s)"
    by (elim conjE) (simp; fast)
  from Suc have paren: "\<And>s r s'. ParseParenExpr strtod n s = Returns (r, s') \<Longrightarrow>
        pending s' \<le> pending s \<and> (CurTok s \<noteq> tok_eof \<longrightarrow> pending s' < pending s)"
    by (elim conjE) (simp; fast)
  from Suc have ident: "\<And>s r s'. ParseIdentifierExpr strtod n s = Returns (r, s') \<Longrightarrow>
        pending s' \<le> pending s \<and> (CurTok s \<noteq> tok_eof \<longrightarrow> pending s' < pending s)"
    by (elim conjE) (simp; fast)
  from Suc have args: "\<And>s r s' Callee Args NumArgs. ParseCallArgs strtod n Callee Args NumArgs s = Returns (r, s') \<Longrightarrow>
        pending s' \<le> pending s"
    by (elim conjE) (simp; fast)
  from Suc have binop: "\<And>s r s' ExprPrec LHS. ParseBinOpRHS strtod n ExprPrec LHS s = Returns (r, s') \<Longrightarrow>
        pending s' \<le> pending s"
    by (elim conjE) (simp; fast)
  from Suc have expr: "\<And>s r s'. ParseExpression strtod n s = Returns (r, s') \<Longrightarrow>
        pending s' \<le> pending s \<and> (r \<noteq> None \<longrightarrow> pending s' < pending s)"
    by (elim conjE) (simp; fast)
  have 1: "pending s' \<le> pending s \<and> (r \<noteq> None \<longrightarrow> pending s' < pending s)"
    if run: "ParsePrimary strtod (Suc n) s = Returns (r, s')" for s r s'
  proof -
    consider (i) "CurTok s = tok_identifier" | (n) "CurTok s = tok_number" | (p) "CurTok s = 40"
      | (e) "CurTok s \<noteq> tok_identifier" "CurTok s \<noteq> tok_number" "CurTok s \<noteq> 40"
      by blast
    then show ?thesis
    proof cases
      case i
      with run have "ParseIdentifierExpr strtod n s = Returns (r, s')" by simp
      from ident [OF this] i show ?thesis
        by (simp add: tok_identifier_def tok_eof_def)
    next
      case n
      with run obtain t where "getNextToken strtod s = Returns (t, s')"
        by (auto simp: ParseNumberExpr_def and_then_Returns_iff tok_identifier_def tok_number_def)
      from pending_getNextToken(2) [OF this] n show ?thesis
        by (simp add: tok_number_def tok_eof_def)
    next
      case p
      with run have "ParseParenExpr strtod n s = Returns (r, s')"
        by (simp add: tok_identifier_def tok_number_def)
      from paren [OF this] p show ?thesis
        by (simp add: tok_eof_def)
    next
      case e
      with run have "Error ''unknown token when expecting an expression'' s = (r, s')"
        by simp
      from pending_Error [OF this] show ?thesis by simp
    qed
  qed
  have 2: "pending s' \<le> pending s \<and> (CurTok s \<noteq> tok_eof \<longrightarrow> pending s' < pending s)"
    if run: "ParseParenExpr strtod (Suc n) s = Returns (r, s')" for s r s'
  proof -
    from run obtain t s1 V s2 where g: "getNextToken strtod s = Returns (t, s1)"
      and e: "ParseExpression strtod n s1 = Returns (V, s2)"
      and k: "(case V of
         None \<Rightarrow> Returns (None, s2)
       | Some V' \<Rightarrow>
           if CurTok s2 \<noteq> 41 then Returns (Error (''expected ')'' @ [CHR 0x27]) s2)
           else and_then (getNextToken strtod s2) (\<lambda>(_, s3). Returns (Some V', s3))) = Returns (r, s')"
      by (auto simp: and_then_Returns_iff)
    from expr [OF e] have s2: "pending s2 \<le> pending s1" by simp
    have "pending s' \<le> pending s2"
    proof (cases V)
      case None
      with k show ?thesis by simp
    next
      case (Some V')
      show ?thesis
      proof (cases "CurTok s2 \<noteq> 41")
        case True
        with k Some have "Error (''expected ')'' @ [CHR 0x27]) s2 = (r, s')" by simp
        from pending_Error [OF this] show ?thesis by simp
      next
        case False
        with k Some obtain t' where "getNextToken strtod s2 = Returns (t', s')"
          by (auto simp: and_then_Returns_iff)
        from pending_getNextToken(1) [OF this] show ?thesis .
      qed
    qed
    with s2 pending_getNextToken(1,2) [OF g] show ?thesis by auto
  qed
  have 4: "pending s' \<le> pending s"
    if run: "ParseCallArgs strtod (Suc n) Callee Args NumArgs s = Returns (r, s')"
    for s r s' Callee Args NumArgs
  proof -
    from run obtain Arg s1 where e: "ParseExpression strtod n s = Returns (Arg, s1)"
      and k: "(case Arg of
         None \<Rightarrow> Returns (None, s1)
       | Some Arg' \<Rightarrow>
           if 0 \<le> NumArgs \<and> NumArgs < 64 then
             (let Args' = Args @ [Arg']; NumArgs' = NumArgs + 1 in
              if CurTok s1 = 41 then Returns (Some (CallExprAST Callee Args' NumArgs'), s1)
              else if CurTok s1 \<noteq> 44 then
                Returns (Error ''Expected ')' or ',' in argument list'' s1)
              else
                and_then (getNextToken strtod s1) (\<lambda>(_, s2).
                  ParseCallArgs strtod n Callee Args' NumArgs' s2))
           else Undefined) = Returns (r, s')"
      by (auto simp: and_then_Returns_iff)
    from expr [OF e] have s1: "pending s1 \<le> pending s" by simp
    have "pending s' \<le> pending s1"
    proof (cases Arg)
      case None
      with k show ?thesis by simp
    next
      case (Some Arg')
      from k Some have b: "0 \<le> NumArgs \<and> NumArgs < 64"
        by (auto split: if_splits)
      consider (close) "CurTok s1 = 41" | (bad) "CurTok s1 \<noteq> 41" "CurTok s1 \<noteq> 44" | (comma) "CurTok s1 = 44"
        by blast
      then show ?thesis
      proof cases
        case close
        with k Some b show ?thesis by (simp add: Let_def)
      next
        case bad
        with k Some b have "Error ''Expected ')' or ',' in argument list'' s1 = (r, s')"
          by (simp add: Let_def)
        from pending_Error [OF this] show ?thesis by simp
      next
        case comma
        with k Some b obtain t s2 where g: "getNextToken strtod s1 = Returns (t, s2)"
          and rec: "ParseCallArgs strtod n Callee (Args @ [Arg']) (NumArgs + 1) s2 = Returns (r, s')"
          by (auto simp: Let_def and_then_Returns_iff)
        from args [OF rec] pending_getNextToken(1) [OF g] show ?thesis by simp
      qed
    qed
    with s1 show ?thesis by simp
  qed
  have 3: "pending s' \<le> pending s \<and> (CurTok s \<noteq> tok_eof \<longrightarrow> pending s' < pending s)"
    if run: "ParseIdentifierExpr strtod (Suc n) s = Returns (r, s')" for s r s'
  proof -
    from run obtain IdName t s1 where "c_string (IdentifierStr s) = Some IdName"
      and g: "getNextToken strtod s = Returns (t, s1)"
      and k: "(if CurTok s1 \<noteq> 40 then Returns (Some (VariableExprAST IdName), s1)
            else
              and_then (getNextToken strtod s1) (\<lambda>(_, s2).
              and_then
                (if CurTok s2 \<noteq> 41 then ParseCallArgs strtod n IdName [] 0 s2
                 else Returns (Some (CallExprAST IdName [] 0), s2))
                (\<lambda>(Result, s3).
                   case Result of
                     None \<Rightarrow> Returns (None, s3)
                   | Some Result' \<Rightarrow>
                       and_then (getNextToken strtod s3) (\<lambda>(_, s4). Returns (Some Result', s4))))) = Returns (r, s')"
      by (auto simp: and_then_Returns_iff split: option.splits)
    have "pending s' \<le> pending s1"
    proof (cases "CurTok s1 \<noteq> 40")
      case True
      with k show ?thesis by simp
    next
      case False
      with k obtain t2 s2 Result s3 where g2: "getNextToken strtod s1 = Returns (t2, s2)"
        and c: "(if CurTok s2 \<noteq> 41 then ParseCallArgs strtod n IdName [] 0 s2
                 else Returns (Some (CallExprAST IdName [] 0), s2)) = Returns (Result, s3)"
        and k2: "(case Result of
                     None \<Rightarrow> Returns (None, s3)
                   | Some Result' \<Rightarrow>
                       and_then (getNextToken strtod s3) (\<lambda>(_, s4). Returns (Some Result', s4))) = Returns (r, s')"
        by (auto simp: and_then_Returns_iff)
      have s3: "pending s3 \<le> pending s2"
        using c by (auto dest: args split: if_splits)
      have "pending s' \<le> pending s3"
      proof (cases Result)
        case None
        with k2 show ?thesis by simp
      next
        case (Some Result')
        with k2 obtain t4 where "getNextToken strtod s3 = Returns (t4, s')"
          by (auto simp: and_then_Returns_iff)
        from pending_getNextToken(1) [OF this] show ?thesis .
      qed
      with s3 pending_getNextToken(1) [OF g2] show ?thesis by simp
    qed
    with pending_getNextToken(1,2) [OF g] show ?thesis by auto
  qed
  have 5: "pending s' \<le> pending s"
    if run: "ParseBinOpRHS strtod (Suc n) ExprPrec LHS s = Returns (r, s')"
    for s r s' ExprPrec LHS
  proof (cases "GetTokPrecedence s < ExprPrec")
    case True
    with run show ?thesis by auto
  next
    case False
    with run obtain t s1 RHS s2 where g: "getNextToken strtod s = Returns (t, s1)"
      and e: "ParsePrimary strtod n s1 = Returns (RHS, s2)"
      and k: "(case RHS of
             None \<Rightarrow> Returns (None, s2)
           | Some RHS' \<Rightarrow>
               (let NextPrec = GetTokPrecedence s2 in
                and_then
                  (if GetTokPrecedence s < NextPrec then ParseBinOpRHS strtod n (GetTokPrecedence s + 1) RHS' s2
                   else Returns (Some RHS', s2))
                  (\<lambda>(RHS2, s3).
                     case RHS2 of
                       None \<Rightarrow> Returns (None, s3)
                     | Some RHS2' \<Rightarrow>
                         ParseBinOpRHS strtod n ExprPrec (BinaryExprAST (char_of (CurTok s)) LHS RHS2') s3))) = Returns (r, s')"
      by (auto simp: and_then_Returns_iff Let_def)
    from primary [OF e] have s2: "pending s2 \<le> pending s1" by simp
    have "pending s' \<le> pending s2"
    proof (cases RHS)
      case None
      with k show ?thesis by simp
    next
      case (Some RHS')
      with k obtain RHS2 s3 where c: "(if GetTokPrecedence s < GetTokPrecedence s2
            then ParseBinOpRHS strtod n (GetTokPrecedence s + 1) RHS' s2
            else Returns (Some RHS', s2)) = Returns (RHS2, s3)"
        and k2: "(case RHS2 of
                       None \<Rightarrow> Returns (None, s3)
                     | Some RHS2' \<Rightarrow>
                         ParseBinOpRHS strtod n ExprPrec (BinaryExprAST (char_of (CurTok s)) LHS RHS2') s3) = Returns (r, s')"
        by (auto simp: and_then_Returns_iff Let_def)
      have s3: "pending s3 \<le> pending s2"
        using c by (auto dest: binop split: if_splits)
      have "pending s' \<le> pending s3"
      proof (cases RHS2)
        case None
        with k2 show ?thesis by simp
      next
        case (Some RHS2')
        with k2 have "ParseBinOpRHS strtod n ExprPrec (BinaryExprAST (char_of (CurTok s)) LHS RHS2') s3 = Returns (r, s')"
          by simp
        then show ?thesis by (rule binop)
      qed
      with s3 show ?thesis by simp
    qed
    with s2 pending_getNextToken(1) [OF g] show ?thesis by simp
  qed
  have 6: "pending s' \<le> pending s \<and> (r \<noteq> None \<longrightarrow> pending s' < pending s)"
    if run: "ParseExpression strtod (Suc n) s = Returns (r, s')" for s r s'
  proof -
    from run obtain LHS s1 where e: "ParsePrimary strtod n s = Returns (LHS, s1)"
      and k: "(case LHS of
         None \<Rightarrow> Returns (None, s1)
       | Some LHS' \<Rightarrow> ParseBinOpRHS strtod n 0 LHS' s1) = Returns (r, s')"
      by (auto simp: and_then_Returns_iff)
    show ?thesis
    proof (cases LHS)
      case None
      with k primary [OF e] show ?thesis by auto
    next
      case (Some LHS')
      with primary [OF e] have s1: "pending s1 < pending s" by simp
      from k Some have "ParseBinOpRHS strtod n 0 LHS' s1 = Returns (r, s')" by simp
      from binop [OF this] s1 show ?thesis by simp
    qed
  qed
  from 1 2 3 4 5 6 show ?case by blast
qed

lemma ParsePrimary_pending:
  "ParsePrimary strtod n s = Returns (r, s') \<Longrightarrow>
     pending s' \<le> pending s \<and> (r \<noteq> None \<longrightarrow> pending s' < pending s)"
  using expression_pending [of strtod n] by (elim conjE) (simp; fast)

lemma ParseExpression_pending:
  "ParseExpression strtod n s = Returns (r, s') \<Longrightarrow>
     pending s' \<le> pending s \<and> (r \<noteq> None \<longrightarrow> pending s' < pending s)"
  using expression_pending [of strtod n] by (elim conjE) (simp; fast)

lemma ParseBinOpRHS_pending:
  "ParseBinOpRHS strtod n ExprPrec LHS s = Returns (r, s') \<Longrightarrow> pending s' \<le> pending s"
  using expression_pending [of strtod n] by (elim conjE) (simp; fast)

lemma ParseCallArgs_pending:
  "ParseCallArgs strtod n Callee Args NumArgs s = Returns (r, s') \<Longrightarrow> pending s' \<le> pending s"
  using expression_pending [of strtod n] by (elim conjE) (simp; fast)

text \<open>
  A budget of four times what is pending, and three more, is enough for an expression:
  the call does not run out of it.
\<close>

lemma expression_budget:
  "(\<forall>s. 4 * pending s + 2 \<le> n \<longrightarrow> ParsePrimary strtod n s \<noteq> OutOfFuel) \<and>
   (\<forall>s. CurTok s \<noteq> tok_eof \<longrightarrow> 4 * pending s + 1 \<le> n \<longrightarrow> ParseParenExpr strtod n s \<noteq> OutOfFuel) \<and>
   (\<forall>s. CurTok s \<noteq> tok_eof \<longrightarrow> 4 * pending s + 1 \<le> n \<longrightarrow> ParseIdentifierExpr strtod n s \<noteq> OutOfFuel) \<and>
   (\<forall>s Callee Args NumArgs. 4 * pending s + 4 \<le> n \<longrightarrow>
      ParseCallArgs strtod n Callee Args NumArgs s \<noteq> OutOfFuel) \<and>
   (\<forall>s ExprPrec LHS. 4 * pending s + 3 \<le> n \<longrightarrow> ParseBinOpRHS strtod n ExprPrec LHS s \<noteq> OutOfFuel) \<and>
   (\<forall>s. 4 * pending s + 3 \<le> n \<longrightarrow> ParseExpression strtod n s \<noteq> OutOfFuel)"
proof (induction n)
  case 0
  show ?case by simp
next
  case (Suc n)
  from Suc have primary: "\<And>s. 4 * pending s + 2 \<le> n \<Longrightarrow> ParsePrimary strtod n s \<noteq> OutOfFuel"
    by (elim conjE) (simp; fast)
  from Suc have paren: "\<And>s. CurTok s \<noteq> tok_eof \<Longrightarrow> 4 * pending s + 1 \<le> n \<Longrightarrow> ParseParenExpr strtod n s \<noteq> OutOfFuel"
    by (elim conjE) (simp; fast)
  from Suc have ident: "\<And>s. CurTok s \<noteq> tok_eof \<Longrightarrow> 4 * pending s + 1 \<le> n \<Longrightarrow> ParseIdentifierExpr strtod n s \<noteq> OutOfFuel"
    by (elim conjE) (simp; fast)
  from Suc have args: "\<And>s Callee Args NumArgs. 4 * pending s + 4 \<le> n \<Longrightarrow>
      ParseCallArgs strtod n Callee Args NumArgs s \<noteq> OutOfFuel"
    by (elim conjE) (simp; fast)
  from Suc have binop: "\<And>s ExprPrec LHS. 4 * pending s + 3 \<le> n \<Longrightarrow> ParseBinOpRHS strtod n ExprPrec LHS s \<noteq> OutOfFuel"
    by (elim conjE) (simp; fast)
  from Suc have expr: "\<And>s. 4 * pending s + 3 \<le> n \<Longrightarrow> ParseExpression strtod n s \<noteq> OutOfFuel"
    by (elim conjE) (simp; fast)
  have 1: "ParsePrimary strtod (Suc n) s \<noteq> OutOfFuel" if b: "4 * pending s + 2 \<le> Suc n" for s
  proof -
    consider (i) "CurTok s = tok_identifier" | (n) "CurTok s = tok_number" | (p) "CurTok s = 40"
      | (e) "CurTok s \<noteq> tok_identifier" "CurTok s \<noteq> tok_number" "CurTok s \<noteq> 40"
      by blast
    then show ?thesis
    proof cases
      case i
      with b have "ParseIdentifierExpr strtod n s \<noteq> OutOfFuel"
        by (intro ident) (simp_all add: tok_identifier_def tok_eof_def)
      with i show ?thesis by simp
    next
      case n
      then show ?thesis
        by (simp add: ParseNumberExpr_def and_then_OutOfFuel_iff getNextToken_not_OutOfFuel
            tok_identifier_def tok_number_def split: prod.splits)
    next
      case p
      with b have "ParseParenExpr strtod n s \<noteq> OutOfFuel"
        by (intro paren) (simp_all add: tok_eof_def)
      with p show ?thesis
        by (simp add: tok_identifier_def tok_number_def)
    next
      case e
      then show ?thesis by simp
    qed
  qed
  have 2: "ParseParenExpr strtod (Suc n) s \<noteq> OutOfFuel"
    if c: "CurTok s \<noteq> tok_eof" and b: "4 * pending s + 1 \<le> Suc n" for s
  proof
    assume "ParseParenExpr strtod (Suc n) s = OutOfFuel"
    then obtain t s1 where g: "getNextToken strtod s = Returns (t, s1)"
      and k: "and_then (ParseExpression strtod n s1) (\<lambda>(V, s2).
       case V of
         None \<Rightarrow> Returns (None, s2)
       | Some V' \<Rightarrow>
           if CurTok s2 \<noteq> 41 then Returns (Error (''expected ')'' @ [CHR 0x27]) s2)
           else and_then (getNextToken strtod s2) (\<lambda>(_, s3). Returns (Some V', s3))) = OutOfFuel"
      by (auto simp: and_then_OutOfFuel_iff getNextToken_not_OutOfFuel)
    from pending_getNextToken(2) [OF g c] b have "4 * pending s1 + 3 \<le> n"
      by simp
    then have "ParseExpression strtod n s1 \<noteq> OutOfFuel"
      by (rule expr)
    with k show False
      by (auto simp: and_then_OutOfFuel_iff getNextToken_not_OutOfFuel split: option.splits if_splits)
  qed
  have 4: "ParseCallArgs strtod (Suc n) Callee Args NumArgs s \<noteq> OutOfFuel"
    if b: "4 * pending s + 4 \<le> Suc n" for s Callee Args NumArgs
  proof
    assume "ParseCallArgs strtod (Suc n) Callee Args NumArgs s = OutOfFuel"
    moreover from b have "ParseExpression strtod n s \<noteq> OutOfFuel"
      by (intro expr) simp
    ultimately obtain Arg s1 where e: "ParseExpression strtod n s = Returns (Arg, s1)"
      and k: "(case Arg of
         None \<Rightarrow> Returns (None, s1)
       | Some Arg' \<Rightarrow>
           if 0 \<le> NumArgs \<and> NumArgs < 64 then
             (let Args' = Args @ [Arg']; NumArgs' = NumArgs + 1 in
              if CurTok s1 = 41 then Returns (Some (CallExprAST Callee Args' NumArgs'), s1)
              else if CurTok s1 \<noteq> 44 then
                Returns (Error ''Expected ')' or ',' in argument list'' s1)
              else
                and_then (getNextToken strtod s1) (\<lambda>(_, s2).
                  ParseCallArgs strtod n Callee Args' NumArgs' s2))
           else Undefined) = OutOfFuel"
      by (auto simp: and_then_OutOfFuel_iff)
    from k obtain Arg' t s2 where Arg: "Arg = Some Arg'"
      and g: "getNextToken strtod s1 = Returns (t, s2)"
      and rec: "ParseCallArgs strtod n Callee (Args @ [Arg']) (NumArgs + 1) s2 = OutOfFuel"
      by (auto simp: Let_def and_then_OutOfFuel_iff getNextToken_not_OutOfFuel
          split: option.splits if_splits)
    from ParseExpression_pending [OF e] Arg have "pending s1 < pending s"
      by simp
    with pending_getNextToken(1) [OF g] b have "4 * pending s2 + 4 \<le> n"
      by simp
    from args [OF this] rec show False by simp
  qed
  have 3: "ParseIdentifierExpr strtod (Suc n) s \<noteq> OutOfFuel"
    if c: "CurTok s \<noteq> tok_eof" and b: "4 * pending s + 1 \<le> Suc n" for s
  proof
    assume "ParseIdentifierExpr strtod (Suc n) s = OutOfFuel"
    then obtain IdName t s1 t2 s2 where g: "getNextToken strtod s = Returns (t, s1)"
      and g2: "getNextToken strtod s1 = Returns (t2, s2)"
      and k: "and_then
                (if CurTok s2 \<noteq> 41 then ParseCallArgs strtod n IdName [] 0 s2
                 else Returns (Some (CallExprAST IdName [] 0), s2))
                (\<lambda>(Result, s3).
                   case Result of
                     None \<Rightarrow> Returns (None, s3)
                   | Some Result' \<Rightarrow>
                       and_then (getNextToken strtod s3) (\<lambda>(_, s4). Returns (Some Result', s4))) = OutOfFuel"
      by (auto simp: and_then_OutOfFuel_iff getNextToken_not_OutOfFuel
          split: option.splits if_splits)
    from pending_getNextToken(2) [OF g c] pending_getNextToken(1) [OF g2] b
    have "4 * pending s2 + 4 \<le> n"
      by simp
    then have "ParseCallArgs strtod n IdName [] 0 s2 \<noteq> OutOfFuel"
      by (rule args)
    with k show False
      by (auto simp: and_then_OutOfFuel_iff getNextToken_not_OutOfFuel split: option.splits if_splits)
  qed
  have 5: "ParseBinOpRHS strtod (Suc n) ExprPrec LHS s \<noteq> OutOfFuel"
    if b: "4 * pending s + 3 \<le> Suc n" for s ExprPrec LHS
  proof
    assume run: "ParseBinOpRHS strtod (Suc n) ExprPrec LHS s = OutOfFuel"
    then have "\<not> GetTokPrecedence s < ExprPrec"
      by (auto simp: Let_def)
    with run obtain t s1 where g: "getNextToken strtod s = Returns (t, s1)"
      and k: "and_then (ParsePrimary strtod n s1) (\<lambda>(RHS, s2).
           case RHS of
             None \<Rightarrow> Returns (None, s2)
           | Some RHS' \<Rightarrow>
               (let NextPrec = GetTokPrecedence s2 in
                and_then
                  (if GetTokPrecedence s < NextPrec then ParseBinOpRHS strtod n (GetTokPrecedence s + 1) RHS' s2
                   else Returns (Some RHS', s2))
                  (\<lambda>(RHS2, s3).
                     case RHS2 of
                       None \<Rightarrow> Returns (None, s3)
                     | Some RHS2' \<Rightarrow>
                         ParseBinOpRHS strtod n ExprPrec (BinaryExprAST (char_of (CurTok s)) LHS RHS2') s3))) = OutOfFuel"
      by (auto simp: Let_def and_then_OutOfFuel_iff getNextToken_not_OutOfFuel)
    from pending_getNextToken(1) [OF g] b have "4 * pending s1 + 2 \<le> n"
      by simp
    then have "ParsePrimary strtod n s1 \<noteq> OutOfFuel"
      by (rule primary)
    with k obtain RHS' s2 where e: "ParsePrimary strtod n s1 = Returns (Some RHS', s2)"
      and k2: "and_then
                  (if GetTokPrecedence s < GetTokPrecedence s2 then ParseBinOpRHS strtod n (GetTokPrecedence s + 1) RHS' s2
                   else Returns (Some RHS', s2))
                  (\<lambda>(RHS2, s3).
                     case RHS2 of
                       None \<Rightarrow> Returns (None, s3)
                     | Some RHS2' \<Rightarrow>
                         ParseBinOpRHS strtod n ExprPrec (BinaryExprAST (char_of (CurTok s)) LHS RHS2') s3) = OutOfFuel"
      by (auto simp: Let_def and_then_OutOfFuel_iff split: option.splits)
    from ParsePrimary_pending [OF e] pending_getNextToken(1) [OF g] b
    have b2: "4 * pending s2 + 3 \<le> n"
      by simp
    then have inner: "ParseBinOpRHS strtod n (GetTokPrecedence s + 1) RHS' s2 \<noteq> OutOfFuel"
      by (rule binop)
    with k2 obtain RHS2' s3 where c: "(if GetTokPrecedence s < GetTokPrecedence s2
            then ParseBinOpRHS strtod n (GetTokPrecedence s + 1) RHS' s2
            else Returns (Some RHS', s2)) = Returns (Some RHS2', s3)"
      and rec: "ParseBinOpRHS strtod n ExprPrec (BinaryExprAST (char_of (CurTok s)) LHS RHS2') s3 = OutOfFuel"
      by (auto simp: and_then_OutOfFuel_iff split: option.splits if_splits)
    have "pending s3 \<le> pending s2"
      using c by (auto dest: ParseBinOpRHS_pending split: if_splits)
    with b2 have "4 * pending s3 + 3 \<le> n"
      by simp
    from binop [OF this] rec show False by simp
  qed
  have 6: "ParseExpression strtod (Suc n) s \<noteq> OutOfFuel" if b: "4 * pending s + 3 \<le> Suc n" for s
  proof
    assume "ParseExpression strtod (Suc n) s = OutOfFuel"
    moreover from b have "ParsePrimary strtod n s \<noteq> OutOfFuel"
      by (intro primary) simp
    ultimately obtain LHS' s1 where e: "ParsePrimary strtod n s = Returns (Some LHS', s1)"
      and rec: "ParseBinOpRHS strtod n 0 LHS' s1 = OutOfFuel"
      by (auto simp: and_then_OutOfFuel_iff split: option.splits)
    from ParsePrimary_pending [OF e] b have "4 * pending s1 + 3 \<le> n"
      by simp
    from binop [OF this] rec show False by simp
  qed
  from 1 2 3 4 5 6 show ?case by blast
qed

lemma pending_proto_args:
  "proto_args strtod Args NumArgs s = Returns (Args', NumArgs', s') \<Longrightarrow> pending s' \<le> pending s"
proof (induction strtod Args NumArgs s rule: proto_args.induct)
  case (1 strtod Args NumArgs s)
  from "1.prems" obtain t s1 where g: "getNextToken strtod s = Returns (t, s1)"
    and rest: "(if t = tok_identifier then
         (if 0 \<le> NumArgs \<and> NumArgs < 64 then
            (case c_string (IdentifierStr s1) of
               None \<Rightarrow> Undefined
             | Some a \<Rightarrow> proto_args strtod (Args @ [a]) (NumArgs + 1) s1)
          else Undefined)
       else Returns (Args, NumArgs, s1)) = Returns (Args', NumArgs', s')"
    using proto_args.simps [of strtod Args NumArgs s] by (auto simp: and_then_Returns_iff)
  have s1: "pending s1 \<le> pending s"
    using g by (rule pending_getNextToken(1))
  show ?case
  proof (cases "t = tok_identifier")
    case True
    with rest obtain a where b: "0 \<le> NumArgs \<and> NumArgs < 64" and a: "c_string (IdentifierStr s1) = Some a"
      and rec: "proto_args strtod (Args @ [a]) (NumArgs + 1) s1 = Returns (Args', NumArgs', s')"
      by (auto split: if_splits option.splits)
    from "1.IH" [OF g refl True b a rec] s1 show ?thesis by simp
  next
    case False
    with rest s1 show ?thesis by simp
  qed
qed

lemma pending_ErrorP: "ErrorP Str s = (r, s') \<Longrightarrow> pending s' = pending s"
  by (auto simp: ErrorP_def Error_def)

lemma pending_ParsePrototype:
  assumes "ParsePrototype strtod s = Returns (r, s')"
  shows "pending s' \<le> pending s"
proof (cases "CurTok s \<noteq> tok_identifier")
  case True
  with assms have "ErrorP ''Expected function name in prototype'' s = (r, s')"
    by (simp add: ParsePrototype_def)
  from pending_ErrorP [OF this] show ?thesis by simp
next
  case False
  with assms obtain Name t s1 where g: "getNextToken strtod s = Returns (t, s1)"
    and k: "(if CurTok s1 \<noteq> 40 then Returns (ErrorP ''Expected '(' in prototype'' s1)
               else
                 and_then (proto_args strtod [] 0 s1) (\<lambda>(Args, NumArgs, s2).
                   if CurTok s2 \<noteq> 41 then Returns (ErrorP ''Expected ')' in prototype'' s2)
                   else
                     and_then (getNextToken strtod s2) (\<lambda>(_, s3).
                       Returns (Some (PrototypeAST Name Args NumArgs), s3)))) = Returns (r, s')"
    by (auto simp: ParsePrototype_def and_then_Returns_iff split: option.splits)
  have s1: "pending s1 \<le> pending s"
    using g by (rule pending_getNextToken(1))
  have "pending s' \<le> pending s1"
  proof (cases "CurTok s1 \<noteq> 40")
    case True
    with k have "ErrorP ''Expected '(' in prototype'' s1 = (r, s')"
      by simp
    from pending_ErrorP [OF this] show ?thesis by simp
  next
    case False
    with k obtain Args NumArgs s2 where a: "proto_args strtod [] 0 s1 = Returns (Args, NumArgs, s2)"
      and k2: "(if CurTok s2 \<noteq> 41 then Returns (ErrorP ''Expected ')' in prototype'' s2)
                   else
                     and_then (getNextToken strtod s2) (\<lambda>(_, s3).
                       Returns (Some (PrototypeAST Name Args NumArgs), s3))) = Returns (r, s')"
      by (auto simp: and_then_Returns_iff)
    have "pending s' \<le> pending s2"
    proof (cases "CurTok s2 \<noteq> 41")
      case True
      with k2 have "ErrorP ''Expected ')' in prototype'' s2 = (r, s')"
        by simp
      from pending_ErrorP [OF this] show ?thesis by simp
    next
      case False
      with k2 obtain t3 where "getNextToken strtod s2 = Returns (t3, s')"
        by (auto simp: and_then_Returns_iff)
      then show ?thesis by (rule pending_getNextToken(1))
    qed
    with pending_proto_args [OF a] show ?thesis by simp
  qed
  with s1 show ?thesis by simp
qed

lemma ParseExpression_budget:
  "4 * pending s + 3 \<le> n \<Longrightarrow> ParseExpression strtod n s \<noteq> OutOfFuel"
  using expression_budget [of n strtod] by (elim conjE) (simp; fast)

lemma ParseTopLevelExpr_budget:
  "4 * pending s + 3 \<le> n \<Longrightarrow> ParseTopLevelExpr strtod n s \<noteq> OutOfFuel"
  using ParseExpression_budget [of s n strtod]
  by (auto simp: ParseTopLevelExpr_def and_then_OutOfFuel_iff Let_def split: option.splits)

lemma ParseDefinition_budget:
  assumes "4 * pending s + 3 \<le> n"
  shows "ParseDefinition strtod n s \<noteq> OutOfFuel"
proof
  assume "ParseDefinition strtod n s = OutOfFuel"
  then obtain t s1 Proto' s2 where g: "getNextToken strtod s = Returns (t, s1)"
    and p: "ParsePrototype strtod s1 = Returns (Some Proto', s2)"
    and e: "ParseExpression strtod n s2 = OutOfFuel"
    by (auto simp: ParseDefinition_def and_then_OutOfFuel_iff getNextToken_not_OutOfFuel
        ParsePrototype_not_OutOfFuel split: option.splits)
  from pending_getNextToken(1) [OF g] pending_ParsePrototype [OF p] assms
  have "4 * pending s2 + 3 \<le> n"
    by simp
  from ParseExpression_budget [OF this] e show False by simp
qed

lemma ParseExtern_not_OutOfFuel: "ParseExtern strtod s \<noteq> OutOfFuel"
  by (auto simp: ParseExtern_def and_then_OutOfFuel_iff getNextToken_not_OutOfFuel
      ParsePrototype_not_OutOfFuel)

lemma below_refl [simp]: "below a a"
  by (simp add: below_def)

lemma below_OutOfFuel [simp]: "below OutOfFuel b"
  by (simp add: below_def)

lemma below_and_then:
  "below m m' \<Longrightarrow> (\<And>x. m = Returns x \<Longrightarrow> below (f x) (f' x)) \<Longrightarrow> below (and_then m f) (and_then m' f')"
  by (cases m) (auto simp: below_def)

lemma below_if:
  "(c \<Longrightarrow> below a a') \<Longrightarrow> (\<not> c \<Longrightarrow> below b b') \<Longrightarrow> below (if c then a else b) (if c then a' else b')"
  by simp

lemma budget_mono:
  "(\<forall>s. below (ParsePrimary strtod n s) (ParsePrimary strtod (Suc n) s)) \<and>
   (\<forall>s. below (ParseParenExpr strtod n s) (ParseParenExpr strtod (Suc n) s)) \<and>
   (\<forall>s. below (ParseIdentifierExpr strtod n s) (ParseIdentifierExpr strtod (Suc n) s)) \<and>
   (\<forall>s Callee Args NumArgs. below (ParseCallArgs strtod n Callee Args NumArgs s)
      (ParseCallArgs strtod (Suc n) Callee Args NumArgs s)) \<and>
   (\<forall>s ExprPrec LHS. below (ParseBinOpRHS strtod n ExprPrec LHS s) (ParseBinOpRHS strtod (Suc n) ExprPrec LHS s)) \<and>
   (\<forall>s. below (ParseExpression strtod n s) (ParseExpression strtod (Suc n) s))"
proof (induction n)
  case 0
  show ?case by simp
next
  case (Suc n)
  from Suc have primary: "\<And>s. below (ParsePrimary strtod n s) (ParsePrimary strtod (Suc n) s)"
    by (elim conjE) (simp; fast)
  from Suc have paren: "\<And>s. below (ParseParenExpr strtod n s) (ParseParenExpr strtod (Suc n) s)"
    by (elim conjE) (simp; fast)
  from Suc have ident: "\<And>s. below (ParseIdentifierExpr strtod n s) (ParseIdentifierExpr strtod (Suc n) s)"
    by (elim conjE) (simp; fast)
  from Suc have args: "\<And>s Callee Args NumArgs. below (ParseCallArgs strtod n Callee Args NumArgs s)
      (ParseCallArgs strtod (Suc n) Callee Args NumArgs s)"
    by (elim conjE) (simp; fast)
  from Suc have binop: "\<And>s ExprPrec LHS. below (ParseBinOpRHS strtod n ExprPrec LHS s) (ParseBinOpRHS strtod (Suc n) ExprPrec LHS s)"
    by (elim conjE) (simp; fast)
  from Suc have expr: "\<And>s. below (ParseExpression strtod n s) (ParseExpression strtod (Suc n) s)"
    by (elim conjE) (simp; fast)
  note sub = primary paren ident args binop expr
  note defs = ParsePrimary.simps ParseParenExpr.simps ParseIdentifierExpr.simps ParseCallArgs.simps
    ParseBinOpRHS.simps ParseExpression.simps
  have 1: "below (ParsePrimary strtod (Suc n) s) (ParsePrimary strtod (Suc (Suc n)) s)" for s
    using ParsePrimary.simps(2) [of strtod n s] ParsePrimary.simps(2) [of strtod "Suc n" s]
    by (simp only:) (intro below_if below_refl sub)
  have 2: "below (ParseParenExpr strtod (Suc n) s) (ParseParenExpr strtod (Suc (Suc n)) s)" for s
    using ParseParenExpr.simps(2) [of strtod n s] ParseParenExpr.simps(2) [of strtod "Suc n" s]
    by (simp only:) (auto intro!: below_and_then below_if sub simp del: defs split: option.splits)
  have 3: "below (ParseIdentifierExpr strtod (Suc n) s) (ParseIdentifierExpr strtod (Suc (Suc n)) s)" for s
    using ParseIdentifierExpr.simps(2) [of strtod n s] ParseIdentifierExpr.simps(2) [of strtod "Suc n" s]
    by (simp only:) (auto intro!: below_and_then below_if sub simp del: defs split: option.splits)
  have 4: "below (ParseCallArgs strtod (Suc n) Callee Args NumArgs s)
      (ParseCallArgs strtod (Suc (Suc n)) Callee Args NumArgs s)" for s Callee Args NumArgs
    using ParseCallArgs.simps(2) [of strtod n Callee Args NumArgs s]
      ParseCallArgs.simps(2) [of strtod "Suc n" Callee Args NumArgs s]
    by (simp only:) (auto intro!: below_and_then below_if sub simp: Let_def simp del: defs split: option.splits)
  have 5: "below (ParseBinOpRHS strtod (Suc n) ExprPrec LHS s)
      (ParseBinOpRHS strtod (Suc (Suc n)) ExprPrec LHS s)" for s ExprPrec LHS
    using ParseBinOpRHS.simps(2) [of strtod n ExprPrec LHS s]
      ParseBinOpRHS.simps(2) [of strtod "Suc n" ExprPrec LHS s]
    by (simp only:) (auto intro!: below_and_then below_if sub simp: Let_def simp del: defs split: option.splits)
  have 6: "below (ParseExpression strtod (Suc n) s) (ParseExpression strtod (Suc (Suc n)) s)" for s
    using ParseExpression.simps(2) [of strtod n s] ParseExpression.simps(2) [of strtod "Suc n" s]
    by (simp only:) (auto intro!: below_and_then below_if sub simp del: defs split: option.splits)
  from 1 2 3 4 5 6 show ?case by blast
qed

lemma below_trans: "below a b \<Longrightarrow> below b c \<Longrightarrow> below a c"
  by (auto simp: below_def)

lemma ParseExpression_below: "below (ParseExpression strtod n s) (ParseExpression strtod (n + k) s)"
proof (induction k)
  case 0
  show ?case by simp
next
  case (Suc k)
  from budget_mono [of strtod "n + k"]
  have "below (ParseExpression strtod (n + k) s) (ParseExpression strtod (Suc (n + k)) s)"
    by (elim conjE) (simp; fast)
  with Suc show ?case
    by (auto intro: below_trans)
qed

text \<open>
  With a budget of \<open>4 * pending s + 3\<close> or more, \<^verbatim>\<open>ParseExpression\<close> does not run out of it,
  and its outcome is the same for every such budget.
\<close>

lemma ParseExpression_total:
  assumes "4 * pending s + 3 \<le> n"
  shows "ParseExpression strtod n s \<noteq> OutOfFuel"
    and "ParseExpression strtod n s = ParseExpression strtod (4 * pending s + 3) s"
proof -
  show "ParseExpression strtod n s \<noteq> OutOfFuel"
    using assms by (rule ParseExpression_budget)
  have "ParseExpression strtod (4 * pending s + 3) s \<noteq> OutOfFuel"
    by (rule ParseExpression_budget) simp
  moreover from assms obtain k where "n = 4 * pending s + 3 + k"
    using le_Suc_ex by blast
  ultimately show "ParseExpression strtod n s = ParseExpression strtod (4 * pending s + 3) s"
    using ParseExpression_below [of strtod "4 * pending s + 3" s k] by (simp add: below_def)
qed

section \<open>Errors\<close>

lemma stderr_read_LastChar [simp]: "stderr (read_LastChar s) = stderr s"
  by (simp add: read_LastChar_def getchar_def split: list.splits)

lemma stderr_skip_space [simp]: "stderr (skip_space s) = stderr s"
proof (induction s rule: skip_space.induct)
  case (1 s)
  then show ?case
    using skip_space.simps [of s] by (cases "isspace (LastChar s)") simp_all
qed

lemma stderr_comment_loop [simp]: "stderr (comment_loop s) = stderr s"
proof (induction s rule: comment_loop.induct)
  case (1 s)
  let ?s1 = "read_LastChar s"
  show ?case
  proof (cases "LastChar ?s1 \<noteq> EOF \<and> LastChar ?s1 \<noteq> 10 \<and> LastChar ?s1 \<noteq> 13")
    case True
    then have "comment_loop s = comment_loop ?s1"
      using comment_loop.simps [of s] by (simp add: Let_def)
    with "1.IH" [OF refl True] show ?thesis by simp
  next
    case False
    then have "comment_loop s = ?s1"
      using comment_loop.simps [of s] by (auto simp: Let_def)
    then show ?thesis by simp
  qed
qed

lemma stderr_ident_loop: "ident_loop i s = Returns (j, s') \<Longrightarrow> stderr s' = stderr s"
proof (induction i s rule: ident_loop.induct)
  case (1 charIndex s)
  let ?s1 = "read_LastChar s"
  let ?s2 = "?s1\<lparr>IdentifierStr := (IdentifierStr ?s1)(charIndex := char_of (LastChar ?s1))\<rparr>"
  show ?case
  proof (cases "isalnum (LastChar ?s1)")
    case True
    with "1.prems" have lt: "charIndex < 64" and rec: "ident_loop (charIndex + 1) ?s2 = Returns (j, s')"
      using ident_loop.simps [of charIndex s] by (auto simp: Let_def split: if_splits)
    from "1.IH" [OF refl True lt rec] show ?thesis by simp
  next
    case False
    with "1.prems" have "s' = ?s1"
      using ident_loop.simps [of charIndex s] by (auto simp: Let_def)
    then show ?thesis by simp
  qed
qed

lemma stderr_num_loop: "num_loop b i s = Returns (b', j, s') \<Longrightarrow> stderr s' = stderr s"
proof (induction b i s rule: num_loop.induct)
  case (1 NumStr charIndex s)
  let ?s1 = "read_LastChar s"
  let ?b = "NumStr(charIndex := char_of (LastChar s))"
  from "1.prems" have lt: "charIndex < 64"
    using num_loop.simps [of NumStr charIndex s] by (auto split: if_splits)
  show ?case
  proof (cases "isdigit (LastChar ?s1) \<or> LastChar ?s1 = 46")
    case True
    with "1.prems" lt have rec: "num_loop ?b (charIndex + 1) ?s1 = Returns (b', j, s')"
      using num_loop.simps [of NumStr charIndex s] by (auto simp: Let_def)
    from "1.IH" [OF lt refl refl True rec] show ?thesis by simp
  next
    case False
    with "1.prems" lt have "s' = ?s1"
      using num_loop.simps [of NumStr charIndex s] by (auto simp: Let_def)
    then show ?thesis by simp
  qed
qed

lemma stderr_gettok: "gettok strtod s0 = Returns (t, s') \<Longrightarrow> stderr s' = stderr s0"
proof (induction strtod s0 rule: gettok.induct)
  case (1 strtod s0)
  let ?s = "skip_space s0"
  note ret = "1.prems"
  consider (ident) "isalpha (LastChar ?s)"
    | (num) "\<not> isalpha (LastChar ?s)" "isdigit (LastChar ?s) \<or> LastChar ?s = 46"
    | (retry) "\<not> isalpha (LastChar ?s)" "\<not> (isdigit (LastChar ?s) \<or> LastChar ?s = 46)"
        "LastChar ?s = 35 \<and> LastChar (comment_loop ?s) \<noteq> EOF"
    | (other) "\<not> isalpha (LastChar ?s)" "\<not> (isdigit (LastChar ?s) \<or> LastChar ?s = 46)"
        "\<not> (LastChar ?s = 35 \<and> LastChar (comment_loop ?s) \<noteq> EOF)"
    by blast
  then show ?case
  proof cases
    case ident
    let ?a = "?s\<lparr>IdentifierStr := (IdentifierStr ?s)(0 := char_of (LastChar ?s))\<rparr>"
    from ident ret obtain ci s1 where il: "ident_loop 1 ?a = Returns (ci, s1)"
      and u: "stderr s' = stderr s1"
      using gettok.simps [of strtod s0]
      by (cases "ident_loop 1 ?a") (auto simp: Let_def split: if_splits)
    from stderr_ident_loop [OF il] u show ?thesis by simp
  next
    case num
    let ?a = "?s\<lparr>NumStr_calls := NumStr_calls ?s + 1\<rparr>"
    from num ret obtain b ci s1 where nl: "num_loop (NumStr_uninit ?s (NumStr_calls ?s)) 1 ?a = Returns (b, ci, s1)"
      and u: "stderr s' = stderr s1"
      using gettok.simps [of strtod s0]
      by (cases "num_loop (NumStr_uninit ?s (NumStr_calls ?s)) 1 ?a")
        (auto simp: Let_def split: if_splits option.splits)
    from stderr_num_loop [OF nl] u show ?thesis by simp
  next
    case retry
    with ret have "gettok strtod (comment_loop ?s) = Returns (t, s')"
      using gettok.simps [of strtod s0] by (simp add: Let_def)
    from "1.IH" [OF refl retry this] show ?thesis by simp
  next
    case other
    with ret show ?thesis
      using gettok.simps [of strtod s0] by (auto simp: Let_def split: if_splits)
  qed
qed

lemma stderr_getNextToken: "getNextToken strtod s = Returns (t, s') \<Longrightarrow> stderr s' = stderr s"
  by (auto simp: getNextToken_def and_then_Returns_iff dest: stderr_gettok)

lemma stderr_proto_args:
  "proto_args strtod Args NumArgs s = Returns (Args', NumArgs', s') \<Longrightarrow> stderr s' = stderr s"
proof (induction strtod Args NumArgs s rule: proto_args.induct)
  case (1 strtod Args NumArgs s)
  from "1.prems" obtain t s1 where g: "getNextToken strtod s = Returns (t, s1)"
    and rest: "(if t = tok_identifier then
         (if 0 \<le> NumArgs \<and> NumArgs < 64 then
            (case c_string (IdentifierStr s1) of
               None \<Rightarrow> Undefined
             | Some a \<Rightarrow> proto_args strtod (Args @ [a]) (NumArgs + 1) s1)
          else Undefined)
       else Returns (Args, NumArgs, s1)) = Returns (Args', NumArgs', s')"
    using proto_args.simps [of strtod Args NumArgs s] by (auto simp: and_then_Returns_iff)
  have s1: "stderr s1 = stderr s"
    using g by (rule stderr_getNextToken)
  show ?case
  proof (cases "t = tok_identifier")
    case True
    with rest obtain a where b: "0 \<le> NumArgs \<and> NumArgs < 64" and a: "c_string (IdentifierStr s1) = Some a"
      and rec: "proto_args strtod (Args @ [a]) (NumArgs + 1) s1 = Returns (Args', NumArgs', s')"
      by (auto split: if_splits option.splits)
    from "1.IH" [OF g refl True b a rec] s1 show ?thesis by simp
  next
    case False
    with rest s1 show ?thesis by simp
  qed
qed

lemma error_policy_simps [simp]:
  "error_policy s (None, s') = (\<exists>Str\<in>set error_messages. stderr s' = stderr s @ error_line Str)"
  "error_policy s (Some node, s') = (stderr s' = stderr s)"
  by (simp_all add: error_policy_def)

lemma error_policy_Error:
  "Str \<in> set error_messages \<Longrightarrow> stderr s1 = stderr s \<Longrightarrow> error_policy s (Error Str s1)"
  by (auto simp: Error_def error_line_def)

lemma error_policy_ErrorP:
  "Str \<in> set error_messages \<Longrightarrow> stderr s1 = stderr s \<Longrightarrow> error_policy s (ErrorP Str s1)"
  by (auto simp: ErrorP_def Error_def error_line_def)

lemma error_policy_from:
  "error_policy s1 r \<Longrightarrow> stderr s1 = stderr s \<Longrightarrow> error_policy s r"
  by (auto simp: error_policy_def split: prod.splits option.splits)

lemma error_messages_mem:
  "''unknown token when expecting an expression'' \<in> set error_messages"
  "''expected ')'' @ [CHR 0x27] \<in> set error_messages"
  "''Expected ')' or ',' in argument list'' \<in> set error_messages"
  "''Expected function name in prototype'' \<in> set error_messages"
  "''Expected '(' in prototype'' \<in> set error_messages"
  "''Expected ')' in prototype'' \<in> set error_messages"
  by (simp_all add: error_messages_def)

lemma error_policy_Some_stderr: "error_policy s (Some node, s') \<Longrightarrow> stderr s' = stderr s"
  by simp

lemma expression_error_policy:
  "(\<forall>s r. ParsePrimary strtod n s = Returns r \<longrightarrow> error_policy s r) \<and>
   (\<forall>s r. ParseParenExpr strtod n s = Returns r \<longrightarrow> error_policy s r) \<and>
   (\<forall>s r. ParseIdentifierExpr strtod n s = Returns r \<longrightarrow> error_policy s r) \<and>
   (\<forall>s r Callee Args NumArgs. ParseCallArgs strtod n Callee Args NumArgs s = Returns r \<longrightarrow> error_policy s r) \<and>
   (\<forall>s r ExprPrec LHS. ParseBinOpRHS strtod n ExprPrec LHS s = Returns r \<longrightarrow> error_policy s r) \<and>
   (\<forall>s r. ParseExpression strtod n s = Returns r \<longrightarrow> error_policy s r)"
proof (induction n)
  case 0
  show ?case by simp
next
  case (Suc n)
  then have primary: "\<And>s r. ParsePrimary strtod n s = Returns r \<Longrightarrow> error_policy s r"
    and paren: "\<And>s r. ParseParenExpr strtod n s = Returns r \<Longrightarrow> error_policy s r"
    and ident: "\<And>s r. ParseIdentifierExpr strtod n s = Returns r \<Longrightarrow> error_policy s r"
    and args: "\<And>s r Callee Args NumArgs. ParseCallArgs strtod n Callee Args NumArgs s = Returns r \<Longrightarrow> error_policy s r"
    and binop: "\<And>s r ExprPrec LHS. ParseBinOpRHS strtod n ExprPrec LHS s = Returns r \<Longrightarrow> error_policy s r"
    and expr: "\<And>s r. ParseExpression strtod n s = Returns r \<Longrightarrow> error_policy s r"
    by blast+
  have 1: "error_policy s r" if "ParsePrimary strtod (Suc n) s = Returns r" for s r
    using that
    by (auto simp: ParseNumberExpr_def and_then_Returns_iff
        intro: ident paren error_policy_Error error_messages_mem
        dest: stderr_getNextToken split: if_splits)
  have 2: "error_policy s r" if "ParseParenExpr strtod (Suc n) s = Returns r" for s r
  proof -
    from that obtain t s1 V s2 where g: "getNextToken strtod s = Returns (t, s1)"
      and e: "ParseExpression strtod n s1 = Returns (V, s2)"
      and k: "(case V of
         None \<Rightarrow> Returns (None, s2)
       | Some V' \<Rightarrow>
           if CurTok s2 \<noteq> 41 then Returns (Error (''expected ')'' @ [CHR 0x27]) s2)
           else and_then (getNextToken strtod s2) (\<lambda>(_, s3). Returns (Some V', s3))) = Returns r"
      by (auto simp: and_then_Returns_iff)
    have s1: "stderr s1 = stderr s"
      using g by (rule stderr_getNextToken)
    have p: "error_policy s (V, s2)"
      using expr [OF e] s1 by (rule error_policy_from)
    show ?thesis
    proof (cases V)
      case None
      with k p show ?thesis by auto
    next
      case (Some V')
      with p have s2: "stderr s2 = stderr s" by simp
      show ?thesis
      proof (cases "CurTok s2 \<noteq> 41")
        case True
        with k Some have "r = Error (''expected ')'' @ [CHR 0x27]) s2"
          by simp
        with s2 show ?thesis
          by (simp only: error_policy_Error error_messages_mem)
      next
        case False
        with k Some s2 show ?thesis
          by (auto simp: and_then_Returns_iff dest: stderr_getNextToken)
      qed
    qed
  qed
  have 4: "error_policy s r" if "ParseCallArgs strtod (Suc n) Callee Args NumArgs s = Returns r"
    for s r Callee Args NumArgs
  proof -
    from that obtain Arg s1 where e: "ParseExpression strtod n s = Returns (Arg, s1)"
      and k: "(case Arg of
         None \<Rightarrow> Returns (None, s1)
       | Some Arg' \<Rightarrow>
           if 0 \<le> NumArgs \<and> NumArgs < 64 then
             (let Args' = Args @ [Arg']; NumArgs' = NumArgs + 1 in
              if CurTok s1 = 41 then Returns (Some (CallExprAST Callee Args' NumArgs'), s1)
              else if CurTok s1 \<noteq> 44 then
                Returns (Error ''Expected ')' or ',' in argument list'' s1)
              else
                and_then (getNextToken strtod s1) (\<lambda>(_, s2).
                  ParseCallArgs strtod n Callee Args' NumArgs' s2))
           else Undefined) = Returns r"
      by (auto simp: and_then_Returns_iff)
    have p: "error_policy s (Arg, s1)"
      using e by (rule expr)
    show ?thesis
    proof (cases Arg)
      case None
      with k p show ?thesis by auto
    next
      case (Some Arg')
      with p have s1: "stderr s1 = stderr s" by simp
      from k Some have b: "0 \<le> NumArgs \<and> NumArgs < 64"
        by (auto split: if_splits)
      consider (close) "CurTok s1 = 41" | (bad) "CurTok s1 \<noteq> 41" "CurTok s1 \<noteq> 44" | (comma) "CurTok s1 = 44"
        by blast
      then show ?thesis
      proof cases
        case close
        with k Some b s1 show ?thesis by (auto simp: Let_def)
      next
        case bad
        with k Some b have "r = Error ''Expected ')' or ',' in argument list'' s1"
          by (auto simp: Let_def)
        with s1 show ?thesis
          by (simp add: error_policy_Error error_messages_mem)
      next
        case comma
        with k Some b obtain t s2 where g: "getNextToken strtod s1 = Returns (t, s2)"
          and rec: "ParseCallArgs strtod n Callee (Args @ [Arg']) (NumArgs + 1) s2 = Returns r"
          by (auto simp: Let_def and_then_Returns_iff)
        from stderr_getNextToken [OF g] s1 have "stderr s2 = stderr s" by simp
        with args [OF rec] show ?thesis by (rule error_policy_from)
      qed
    qed
  qed
  have 3: "error_policy s r" if "ParseIdentifierExpr strtod (Suc n) s = Returns r" for s r
  proof -
    from that obtain IdName t s1 where "c_string (IdentifierStr s) = Some IdName"
      and g: "getNextToken strtod s = Returns (t, s1)"
      and k: "(if CurTok s1 \<noteq> 40 then Returns (Some (VariableExprAST IdName), s1)
            else
              and_then (getNextToken strtod s1) (\<lambda>(_, s2).
              and_then
                (if CurTok s2 \<noteq> 41 then ParseCallArgs strtod n IdName [] 0 s2
                 else Returns (Some (CallExprAST IdName [] 0), s2))
                (\<lambda>(Result, s3).
                   case Result of
                     None \<Rightarrow> Returns (None, s3)
                   | Some Result' \<Rightarrow>
                       and_then (getNextToken strtod s3) (\<lambda>(_, s4). Returns (Some Result', s4))))) = Returns r"
      by (auto simp: and_then_Returns_iff split: option.splits)
    have s1: "stderr s1 = stderr s"
      using g by (rule stderr_getNextToken)
    show ?thesis
    proof (cases "CurTok s1 \<noteq> 40")
      case True
      with k s1 show ?thesis by auto
    next
      case False
      with k obtain t2 s2 Result s3 where g2: "getNextToken strtod s1 = Returns (t2, s2)"
        and c: "(if CurTok s2 \<noteq> 41 then ParseCallArgs strtod n IdName [] 0 s2
                 else Returns (Some (CallExprAST IdName [] 0), s2)) = Returns (Result, s3)"
        and k2: "(case Result of
                     None \<Rightarrow> Returns (None, s3)
                   | Some Result' \<Rightarrow>
                       and_then (getNextToken strtod s3) (\<lambda>(_, s4). Returns (Some Result', s4))) = Returns r"
        by (auto simp: and_then_Returns_iff)
      from stderr_getNextToken [OF g2] s1 have s2: "stderr s2 = stderr s" by simp
      have "error_policy s2 (Result, s3)"
        using c by (auto intro: args split: if_splits)
      then have p: "error_policy s (Result, s3)"
        using s2 by (rule error_policy_from)
      show ?thesis
      proof (cases Result)
        case None
        with k2 p show ?thesis by auto
      next
        case (Some Result')
        with p have "stderr s3 = stderr s" by simp
        with k2 Some show ?thesis
          by (auto simp: and_then_Returns_iff dest: stderr_getNextToken)
      qed
    qed
  qed
  have 5: "error_policy s r" if "ParseBinOpRHS strtod (Suc n) ExprPrec LHS s = Returns r"
    for s r ExprPrec LHS
  proof (cases "GetTokPrecedence s < ExprPrec")
    case True
    with that show ?thesis by auto
  next
    case False
    with that obtain t s1 RHS s2 where g: "getNextToken strtod s = Returns (t, s1)"
      and e: "ParsePrimary strtod n s1 = Returns (RHS, s2)"
      and k: "(case RHS of
             None \<Rightarrow> Returns (None, s2)
           | Some RHS' \<Rightarrow>
               (let NextPrec = GetTokPrecedence s2 in
                and_then
                  (if GetTokPrecedence s < NextPrec then ParseBinOpRHS strtod n (GetTokPrecedence s + 1) RHS' s2
                   else Returns (Some RHS', s2))
                  (\<lambda>(RHS2, s3).
                     case RHS2 of
                       None \<Rightarrow> Returns (None, s3)
                     | Some RHS2' \<Rightarrow>
                         ParseBinOpRHS strtod n ExprPrec (BinaryExprAST (char_of (CurTok s)) LHS RHS2') s3))) = Returns r"
      by (auto simp: and_then_Returns_iff Let_def)
    have s1: "stderr s1 = stderr s"
      using g by (rule stderr_getNextToken)
    have p: "error_policy s (RHS, s2)"
      using primary [OF e] s1 by (rule error_policy_from)
    show ?thesis
    proof (cases RHS)
      case None
      with k p show ?thesis by auto
    next
      case (Some RHS')
      with p have s2: "stderr s2 = stderr s" by simp
      from k Some obtain RHS2 s3 where c: "(if GetTokPrecedence s < GetTokPrecedence s2
            then ParseBinOpRHS strtod n (GetTokPrecedence s + 1) RHS' s2
            else Returns (Some RHS', s2)) = Returns (RHS2, s3)"
        and k2: "(case RHS2 of
                       None \<Rightarrow> Returns (None, s3)
                     | Some RHS2' \<Rightarrow>
                         ParseBinOpRHS strtod n ExprPrec (BinaryExprAST (char_of (CurTok s)) LHS RHS2') s3) = Returns r"
        by (auto simp: and_then_Returns_iff Let_def)
      have "error_policy s2 (RHS2, s3)"
        using c by (auto intro: binop split: if_splits)
      then have p2: "error_policy s (RHS2, s3)"
        using s2 by (rule error_policy_from)
      show ?thesis
      proof (cases RHS2)
        case None
        with k2 p2 show ?thesis by auto
      next
        case (Some RHS2')
        with p2 have s3: "stderr s3 = stderr s" by simp
        from k2 Some have "ParseBinOpRHS strtod n ExprPrec (BinaryExprAST (char_of (CurTok s)) LHS RHS2') s3 = Returns r"
          by simp
        from binop [OF this] s3 show ?thesis by (rule error_policy_from)
      qed
    qed
  qed
  have 6: "error_policy s r" if "ParseExpression strtod (Suc n) s = Returns r" for s r
  proof -
    from that obtain LHS s1 where e: "ParsePrimary strtod n s = Returns (LHS, s1)"
      and k: "(case LHS of
         None \<Rightarrow> Returns (None, s1)
       | Some LHS' \<Rightarrow> ParseBinOpRHS strtod n 0 LHS' s1) = Returns r"
      by (auto simp: and_then_Returns_iff)
    have p: "error_policy s (LHS, s1)"
      using e by (rule primary)
    show ?thesis
    proof (cases LHS)
      case None
      with k p show ?thesis by auto
    next
      case (Some LHS')
      with p have s1: "stderr s1 = stderr s" by simp
      from k Some have "ParseBinOpRHS strtod n 0 LHS' s1 = Returns r" by simp
      from binop [OF this] s1 show ?thesis by (rule error_policy_from)
    qed
  qed
  from 1 2 3 4 5 6 show ?case by blast
qed

lemma ParsePrototype_error_policy:
  assumes "ParsePrototype strtod s = Returns r"
  shows "error_policy s r"
proof (cases "CurTok s \<noteq> tok_identifier")
  case True
  with assms have "r = ErrorP ''Expected function name in prototype'' s"
    by (simp add: ParsePrototype_def)
  then show ?thesis
    by (simp only: error_policy_ErrorP error_messages_mem)
next
  case False
  with assms obtain Name t s1 where g: "getNextToken strtod s = Returns (t, s1)"
    and k: "(if CurTok s1 \<noteq> 40 then Returns (ErrorP ''Expected '(' in prototype'' s1)
               else
                 and_then (proto_args strtod [] 0 s1) (\<lambda>(Args, NumArgs, s2).
                   if CurTok s2 \<noteq> 41 then Returns (ErrorP ''Expected ')' in prototype'' s2)
                   else
                     and_then (getNextToken strtod s2) (\<lambda>(_, s3).
                       Returns (Some (PrototypeAST Name Args NumArgs), s3)))) = Returns r"
    by (auto simp: ParsePrototype_def and_then_Returns_iff split: option.splits)
  have s1: "stderr s1 = stderr s"
    using g by (rule stderr_getNextToken)
  show ?thesis
  proof (cases "CurTok s1 \<noteq> 40")
    case True
    with k have "r = ErrorP ''Expected '(' in prototype'' s1"
      by simp
    with s1 show ?thesis
      by (simp only: error_policy_ErrorP error_messages_mem)
  next
    case False
    with k obtain Args NumArgs s2 where a: "proto_args strtod [] 0 s1 = Returns (Args, NumArgs, s2)"
      and k2: "(if CurTok s2 \<noteq> 41 then Returns (ErrorP ''Expected ')' in prototype'' s2)
                   else
                     and_then (getNextToken strtod s2) (\<lambda>(_, s3).
                       Returns (Some (PrototypeAST Name Args NumArgs), s3))) = Returns r"
      by (auto simp: and_then_Returns_iff)
    from stderr_proto_args [OF a] s1 have s2: "stderr s2 = stderr s"
      by simp
    show ?thesis
    proof (cases "CurTok s2 \<noteq> 41")
      case True
      with k2 have "r = ErrorP ''Expected ')' in prototype'' s2"
        by simp
      with s2 show ?thesis
        by (simp only: error_policy_ErrorP error_messages_mem)
    next
      case False
      with k2 s2 show ?thesis
        by (auto simp: and_then_Returns_iff dest: stderr_getNextToken)
    qed
  qed
qed

lemma ParseExpression_error_policy:
  "ParseExpression strtod n s = Returns r \<Longrightarrow> error_policy s r"
  using expression_error_policy [of strtod n] by blast

lemma ParseDefinition_error_policy:
  assumes "ParseDefinition strtod n s = Returns r"
  shows "error_policy s r"
proof -
  from assms obtain t s1 Proto s2 where g: "getNextToken strtod s = Returns (t, s1)"
    and p: "ParsePrototype strtod s1 = Returns (Proto, s2)"
    and k: "(case Proto of
         None \<Rightarrow> Returns (None, s2)
       | Some Proto' \<Rightarrow>
           and_then (ParseExpression strtod n s2) (\<lambda>(E, s3).
             case E of
               Some E' \<Rightarrow> Returns (Some (FunctionAST Proto' E'), s3)
             | None \<Rightarrow> Returns (None, s3))) = Returns r"
    by (auto simp: ParseDefinition_def and_then_Returns_iff)
  have s1: "stderr s1 = stderr s"
    using g by (rule stderr_getNextToken)
  have pp: "error_policy s (Proto, s2)"
    using ParsePrototype_error_policy [OF p] s1 by (rule error_policy_from)
  show ?thesis
  proof (cases Proto)
    case None
    with k pp show ?thesis by auto
  next
    case (Some Proto')
    with pp have s2: "stderr s2 = stderr s" by simp
    from k Some obtain E s3 where e: "ParseExpression strtod n s2 = Returns (E, s3)"
      and k2: "(case E of
               Some E' \<Rightarrow> Returns (Some (FunctionAST Proto' E'), s3)
             | None \<Rightarrow> Returns (None, s3)) = Returns r"
      by (auto simp: and_then_Returns_iff)
    have "error_policy s (E, s3)"
      using ParseExpression_error_policy [OF e] s2 by (rule error_policy_from)
    with k2 show ?thesis
      by (cases E) auto
  qed
qed

lemma ParseExtern_error_policy:
  assumes "ParseExtern strtod s = Returns r"
  shows "error_policy s r"
proof -
  from assms obtain t s1 where g: "getNextToken strtod s = Returns (t, s1)"
    and p: "ParsePrototype strtod s1 = Returns r"
    by (auto simp: ParseExtern_def and_then_Returns_iff)
  from ParsePrototype_error_policy [OF p] stderr_getNextToken [OF g] show ?thesis
    by (rule error_policy_from)
qed

lemma ParseTopLevelExpr_error_policy:
  assumes "ParseTopLevelExpr strtod n s = Returns r"
  shows "error_policy s r"
proof -
  from assms obtain E s1 where e: "ParseExpression strtod n s = Returns (E, s1)"
    and k: "(case E of
         Some E' \<Rightarrow>
           (let Proto = PrototypeAST ''__anon_expr'' [] 0 in
            Returns (Some (FunctionAST Proto E'), s1))
       | None \<Rightarrow> Returns (None, s1)) = Returns r"
    by (auto simp: ParseTopLevelExpr_def and_then_Returns_iff)
  from ParseExpression_error_policy [OF e] k show ?thesis
    by (cases E) auto
qed

lemma main_start_on_def: "main_start (\<lambda>t. t) (initial [] spaces ''def 1 2'') = Returns after_def"
  by (simp add: after_def_def spaces_def lexer_unfold parser_unfold cong: and_then_weak_cong)

lemma error_line_written:
  "error_policy s (r, s') \<Longrightarrow> (r = None) = (stderr s' \<noteq> stderr s)"
  by (cases r) (auto simp: error_line_def)

lemma getNextToken_after_def:
  "getNextToken (\<lambda>t. t) after_def =
     Returns (tok_number, after_def\<lparr>input := ''2'', CurTok := tok_number, NumVal := '' 1'', NumStr_calls := 1\<rparr>)"
  by (simp add: after_def_def spaces_def lexer_unfold parser_unfold cong: and_then_weak_cong)

text \<open>
  C7. An error anywhere makes every function of the call chain return \<^verbatim>\<open>NULL\<close>, with one
  line \<^verbatim>\<open>Error: <description>\<close> for it.

  \<^item> Each parsing function that returns has, by then, written to \<^verbatim>\<open>stderr\<close> exactly one line
    \<^verbatim>\<open>Error: <description>\<close> (one of the six descriptions of the program) if it returns
    \<^verbatim>\<open>NULL\<close>, and nothing if it returns a node: the three top-level functions, and every
    function they call on the way down.
  \<^item> Where an error is found, the function writes its line and returns \<^verbatim>\<open>NULL\<close>:
    \<^verbatim>\<open>ParsePrimary\<close> at a token that starts no expression, \<^verbatim>\<open>ParseParenExpr\<close> with no \<^verbatim>\<open>)\<close>
    after the expression, the argument loop with neither \<^verbatim>\<open>)\<close> nor \<^verbatim>\<open>,\<close> after an argument,
    \<^verbatim>\<open>ParsePrototype\<close> with no name, no \<^verbatim>\<open>(\<close> or no \<^verbatim>\<open>)\<close>.
  \<^item> A function of the expression parser whose callee returned \<^verbatim>\<open>NULL\<close> returns \<^verbatim>\<open>NULL\<close>
    itself, in the state the callee left, and so builds no node.
  \<^item> So do the three top-level functions; and they return \<^verbatim>\<open>NULL\<close> exactly when a line was
    written.
  \<^item> The top-level functions do return in this way, unless an array overflows: a recursion
    budget of \<open>4 * pending s + 3\<close> or more does not run out.
\<close>

theorem parse_error_policy:
  "((ParseDefinition strtod n s = Returns rd \<longrightarrow> error_policy s rd)
    \<and> (ParseExtern strtod s = Returns rx \<longrightarrow> error_policy s rx)
    \<and> (ParseTopLevelExpr strtod n s = Returns rt \<longrightarrow> error_policy s rt)
    \<and> (ParsePrototype strtod s = Returns rx \<longrightarrow> error_policy s rx)
    \<and> (ParseExpression strtod n s = Returns re \<longrightarrow> error_policy s re)
    \<and> (ParseBinOpRHS strtod n ExprPrec LHS s = Returns re \<longrightarrow> error_policy s re)
    \<and> (ParsePrimary strtod n s = Returns re \<longrightarrow> error_policy s re)
    \<and> (ParseParenExpr strtod n s = Returns re \<longrightarrow> error_policy s re)
    \<and> (ParseIdentifierExpr strtod n s = Returns re \<longrightarrow> error_policy s re)
    \<and> (ParseCallArgs strtod n Callee Args NumArgs s = Returns re \<longrightarrow> error_policy s re))
   \<and> ((CurTok s \<noteq> tok_identifier \<and> CurTok s \<noteq> tok_number \<and> CurTok s \<noteq> 40 \<longrightarrow>
        ParsePrimary strtod (Suc n) s =
          Returns (None, s\<lparr>stderr := stderr s @ error_line ''unknown token when expecting an expression''\<rparr>))
    \<and> (getNextToken strtod s = Returns (t, s1) \<and> ParseExpression strtod n s1 = Returns (Some V, s2) \<and>
        CurTok s2 \<noteq> 41 \<longrightarrow>
        ParseParenExpr strtod (Suc n) s =
          Returns (None, s2\<lparr>stderr := stderr s2 @ error_line (''expected ')'' @ [CHR 0x27])\<rparr>))
    \<and> (ParseExpression strtod n s = Returns (Some V, s2) \<and> 0 \<le> NumArgs \<and> NumArgs < 64 \<and>
        CurTok s2 \<noteq> 41 \<and> CurTok s2 \<noteq> 44 \<longrightarrow>
        ParseCallArgs strtod (Suc n) Callee Args NumArgs s =
          Returns (None, s2\<lparr>stderr := stderr s2 @ error_line ''Expected ')' or ',' in argument list''\<rparr>))
    \<and> (CurTok s \<noteq> tok_identifier \<longrightarrow>
        ParsePrototype strtod s =
          Returns (None, s\<lparr>stderr := stderr s @ error_line ''Expected function name in prototype''\<rparr>))
    \<and> (CurTok s = tok_identifier \<and> c_string (IdentifierStr s) = Some Name \<and>
        getNextToken strtod s = Returns (t, s1) \<and> CurTok s1 \<noteq> 40 \<longrightarrow>
        ParsePrototype strtod s =
          Returns (None, s1\<lparr>stderr := stderr s1 @ error_line ''Expected '(' in prototype''\<rparr>))
    \<and> (CurTok s = tok_identifier \<and> c_string (IdentifierStr s) = Some Name \<and>
        getNextToken strtod s = Returns (t, s1) \<and> CurTok s1 = 40 \<and>
        proto_args strtod [] 0 s1 = Returns (Params, NumParams, s2) \<and> CurTok s2 \<noteq> 41 \<longrightarrow>
        ParsePrototype strtod s =
          Returns (None, s2\<lparr>stderr := stderr s2 @ error_line ''Expected ')' in prototype''\<rparr>)))
   \<and> ((CurTok s = tok_identifier \<and> ParseIdentifierExpr strtod n s = Returns (None, s') \<longrightarrow>
        ParsePrimary strtod (Suc n) s = Returns (None, s'))
    \<and> (CurTok s = 40 \<and> ParseParenExpr strtod n s = Returns (None, s') \<longrightarrow>
        ParsePrimary strtod (Suc n) s = Returns (None, s'))
    \<and> (getNextToken strtod s = Returns (t, s1) \<and> ParseExpression strtod n s1 = Returns (None, s') \<longrightarrow>
        ParseParenExpr strtod (Suc n) s = Returns (None, s'))
    \<and> (c_string (IdentifierStr s) = Some Name \<and> getNextToken strtod s = Returns (t, s1) \<and> CurTok s1 = 40 \<and>
        getNextToken strtod s1 = Returns (t2, s2) \<and> CurTok s2 \<noteq> 41 \<and>
        ParseCallArgs strtod n Name [] 0 s2 = Returns (None, s') \<longrightarrow>
        ParseIdentifierExpr strtod (Suc n) s = Returns (None, s'))
    \<and> (ParseExpression strtod n s = Returns (None, s') \<longrightarrow>
        ParseCallArgs strtod (Suc n) Callee Args NumArgs s = Returns (None, s'))
    \<and> (ParseExpression strtod n s = Returns (Some V, s1) \<and> 0 \<le> NumArgs \<and> NumArgs < 64 \<and> CurTok s1 = 44 \<and>
        getNextToken strtod s1 = Returns (t2, s2) \<and>
        ParseCallArgs strtod n Callee (Args @ [V]) (NumArgs + 1) s2 = Returns (None, s') \<longrightarrow>
        ParseCallArgs strtod (Suc n) Callee Args NumArgs s = Returns (None, s'))
    \<and> (\<not> GetTokPrecedence s < ExprPrec \<and> getNextToken strtod s = Returns (t, s1) \<and>
        ParsePrimary strtod n s1 = Returns (None, s') \<longrightarrow>
        ParseBinOpRHS strtod (Suc n) ExprPrec LHS s = Returns (None, s'))
    \<and> (\<not> GetTokPrecedence s < ExprPrec \<and> getNextToken strtod s = Returns (t, s1) \<and>
        ParsePrimary strtod n s1 = Returns (Some V, s2) \<and> GetTokPrecedence s < GetTokPrecedence s2 \<and>
        ParseBinOpRHS strtod n (GetTokPrecedence s + 1) V s2 = Returns (None, s') \<longrightarrow>
        ParseBinOpRHS strtod (Suc n) ExprPrec LHS s = Returns (None, s'))
    \<and> (\<not> GetTokPrecedence s < ExprPrec \<and> getNextToken strtod s = Returns (t, s1) \<and>
        ParsePrimary strtod n s1 = Returns (Some V, s2) \<and>
        (if GetTokPrecedence s < GetTokPrecedence s2 then ParseBinOpRHS strtod n (GetTokPrecedence s + 1) V s2
         else Returns (Some V, s2)) = Returns (Some RHS, s3) \<and>
        ParseBinOpRHS strtod n ExprPrec (BinaryExprAST (char_of (CurTok s)) LHS RHS) s3 = Returns (None, s') \<longrightarrow>
        ParseBinOpRHS strtod (Suc n) ExprPrec LHS s = Returns (None, s'))
    \<and> (ParsePrimary strtod n s = Returns (None, s') \<longrightarrow>
        ParseExpression strtod (Suc n) s = Returns (None, s'))
    \<and> (ParsePrimary strtod n s = Returns (Some V, s1) \<and> ParseBinOpRHS strtod n 0 V s1 = Returns (None, s') \<longrightarrow>
        ParseExpression strtod (Suc n) s = Returns (None, s')))
   \<and> ((ParseExpression strtod n s = Returns (None, s') \<longrightarrow>
        ParseTopLevelExpr strtod n s = Returns (None, s'))
    \<and> (getNextToken strtod s = Returns (t, s1) \<and> ParsePrototype strtod s1 = Returns (None, s') \<longrightarrow>
        ParseDefinition strtod n s = Returns (None, s'))
    \<and> (getNextToken strtod s = Returns (t, s1) \<and> ParsePrototype strtod s1 = Returns (Some P, s2) \<and>
        ParseExpression strtod n s2 = Returns (None, s') \<longrightarrow>
        ParseDefinition strtod n s = Returns (None, s'))
    \<and> (getNextToken strtod s = Returns (t, s1) \<and> ParsePrototype strtod s1 = Returns (None, s') \<longrightarrow>
        ParseExtern strtod s = Returns (None, s'))
    \<and> (ParseDefinition strtod n s = Returns (F, s') \<longrightarrow> (F = None) = (stderr s' \<noteq> stderr s))
    \<and> (ParseTopLevelExpr strtod n s = Returns (F, s') \<longrightarrow> (F = None) = (stderr s' \<noteq> stderr s))
    \<and> (ParseExtern strtod s = Returns (X, s') \<longrightarrow> (X = None) = (stderr s' \<noteq> stderr s)))
   \<and> ((4 * pending s + 3 \<le> n \<longrightarrow>
         ParseDefinition strtod n s \<noteq> OutOfFuel \<and> ParseTopLevelExpr strtod n s \<noteq> OutOfFuel)
    \<and> ParseExtern strtod s \<noteq> OutOfFuel)"
  (is "?one_line \<and> ?detected \<and> ?passed_up \<and> ?top_level \<and> ?returns")
proof -
  have one_line: ?one_line
    using expression_error_policy [of strtod n]
    by (intro conjI impI ParseDefinition_error_policy ParseExtern_error_policy
        ParseTopLevelExpr_error_policy ParsePrototype_error_policy) blast+
  have detected: ?detected
    by (simp add: ParsePrototype_def Error_def ErrorP_def error_line_def)
  have passed_up: ?passed_up
    by (simp add: Let_def tok_number_def tok_identifier_def)
  have top_level: ?top_level
    by (intro conjI impI error_line_written ParseDefinition_error_policy
        ParseTopLevelExpr_error_policy ParseExtern_error_policy)
      (simp_all add: ParseTopLevelExpr_def ParseDefinition_def ParseExtern_def)
  have returns: ?returns
    by (intro impI conjI ParseDefinition_budget ParseTopLevelExpr_budget ParseExtern_not_OutOfFuel)
  show ?thesis
    by (rule conjI [OF one_line conjI [OF detected conjI [OF passed_up conjI [OF top_level returns]]]])
qed

text \<open>
  On \<^verbatim>\<open>def 1 2\<close>: after \<^verbatim>\<open>def\<close> the token is a number, \<^verbatim>\<open>ParsePrototype\<close> finds no function
  name, and \<^verbatim>\<open>ParseDefinition\<close> returns its \<^verbatim>\<open>NULL\<close>, with the one line.
\<close>

theorem parse_error_policy_witness:
  "getNextToken (\<lambda>t. t) after_def =
     Returns (tok_number, after_def\<lparr>input := ''2'', CurTok := tok_number, NumVal := '' 1'', NumStr_calls := 1\<rparr>)
   \<and> ParsePrototype (\<lambda>t. t)
       (after_def\<lparr>input := ''2'', CurTok := tok_number, NumVal := '' 1'', NumStr_calls := 1\<rparr>) =
     Returns (None,
       after_def\<lparr>input := ''2'', CurTok := tok_number, NumVal := '' 1'', NumStr_calls := 1,
         stderr := ''ready> '' @ error_line ''Expected function name in prototype''\<rparr>)
   \<and> ParseDefinition (\<lambda>t. t) 10 after_def =
     Returns (None,
       after_def\<lparr>input := ''2'', CurTok := tok_number, NumVal := '' 1'', NumStr_calls := 1,
         stderr := ''ready> '' @ error_line ''Expected function name in prototype''\<rparr>)
   \<and> error_policy after_def
       (None :: string FunctionAST option,
        after_def\<lparr>input := ''2'', CurTok := tok_number, NumVal := '' 1'', NumStr_calls := 1,
          stderr := ''ready> '' @ error_line ''Expected function name in prototype''\<rparr>)"
proof -
  let ?s1 = "after_def\<lparr>input := ''2'', CurTok := tok_number, NumVal := '' 1'', NumStr_calls := 1\<rparr>"
  let ?s2 = "after_def\<lparr>input := ''2'', CurTok := tok_number, NumVal := '' 1'', NumStr_calls := 1,
         stderr := ''ready> '' @ error_line ''Expected function name in prototype''\<rparr>"
  note policy = parse_error_policy [where strtod = "\<lambda>t. t" and n = 10]
  note no_name = policy [where s = ?s1, THEN conjunct2, THEN conjunct1,
      THEN conjunct2, THEN conjunct2, THEN conjunct2, THEN conjunct1, THEN mp]
  note passed_up = policy [where s = after_def and t = tok_number and ?s1.0 = ?s1 and s' = ?s2,
      THEN conjunct2, THEN conjunct2, THEN conjunct2, THEN conjunct1,
      THEN conjunct2, THEN conjunct1, THEN mp]
  note one_line = policy [where s = after_def and rd = "(None, ?s2)",
      THEN conjunct1, THEN conjunct1, THEN mp]
  have eat: "getNextToken (\<lambda>t. t) after_def = Returns (tok_number, ?s1)"
    by (rule getNextToken_after_def)
  have "CurTok ?s1 \<noteq> tok_identifier"
    by (simp add: tok_number_def tok_identifier_def)
  then have "ParsePrototype (\<lambda>t. t) ?s1 =
      Returns (None, ?s1\<lparr>stderr := stderr ?s1 @ error_line ''Expected function name in prototype''\<rparr>)"
    by (rule no_name)
  moreover have "?s1\<lparr>stderr := stderr ?s1 @ error_line ''Expected function name in prototype''\<rparr> = ?s2"
    by (simp add: after_def_def)
  ultimately have name: "ParsePrototype (\<lambda>t. t) ?s1 = Returns (None, ?s2)"
    by (simp only:)
  from eat name have run: "ParseDefinition (\<lambda>t. t) 10 after_def = Returns (None, ?s2)"
    by (intro passed_up conjI)
  from run have "error_policy after_def (None :: string FunctionAST option, ?s2)"
    by (rule one_line)
  with eat name run show ?thesis
    by (intro conjI)
qed

section \<open>Top-level expressions and parentheses\<close>

lemma main_start_3: "main_start (\<lambda>t. t) (initial [] spaces ''3+4'') = Returns after_3"
  by (simp add: after_3_def spaces_def lexer_unfold parser_unfold cong: and_then_weak_cong)

lemma ParseExpression_after_3:
  "ParseExpression (\<lambda>t. t) 10 after_3 =
     Returns (Some (BinaryExprAST CHR ''+'' (NumberExprAST '' 3'') (NumberExprAST '' 4'')),
       after_3\<lparr>input := [], LastChar := EOF, CurTok := tok_eof, NumVal := '' 4'', NumStr_calls := 2\<rparr>)"
  by (simp add: after_3_def spaces_def fuel_numeral_10 lexer_unfold parser_unfold
      cong: and_then_weak_cong)

text \<open>
  C8. Whenever \<^verbatim>\<open>ParseExpression\<close> returns a node \<open>E\<close>, \<^verbatim>\<open>ParseTopLevelExpr\<close> on the same
  state returns the function whose prototype is named \<^verbatim>\<open>__anon_expr\<close> with no parameter
  (\<^verbatim>\<open>NumArgs\<close> 0) and whose body is \<open>E\<close>; and every function it returns is of that form.
\<close>

theorem ParseTopLevelExpr_anonymous_function:
  "(ParseExpression strtod n s = Returns (Some E, s') \<longrightarrow>
      ParseTopLevelExpr strtod n s =
        Returns (Some (FunctionAST (PrototypeAST ''__anon_expr'' [] 0) E), s'))
   \<and> (ParseTopLevelExpr strtod n s = Returns (Some F, s') \<longrightarrow>
      (\<exists>E'. ParseExpression strtod n s = Returns (Some E', s') \<and>
         F = FunctionAST (PrototypeAST ''__anon_expr'' [] 0) E'))"
  by (auto simp: ParseTopLevelExpr_def and_then_Returns_iff split: option.splits)

theorem ParseTopLevelExpr_anonymous_function_witness:
  "ParseExpression (\<lambda>t. t) 10 after_3 =
     Returns (Some (BinaryExprAST CHR ''+'' (NumberExprAST '' 3'') (NumberExprAST '' 4'')),
       after_3\<lparr>input := [], LastChar := EOF, CurTok := tok_eof, NumVal := '' 4'', NumStr_calls := 2\<rparr>)
   \<and> ParseTopLevelExpr (\<lambda>t. t) 10 after_3 =
     Returns (Some (FunctionAST (PrototypeAST ''__anon_expr'' [] 0)
                (BinaryExprAST CHR ''+'' (NumberExprAST '' 3'') (NumberExprAST '' 4''))),
       after_3\<lparr>input := [], LastChar := EOF, CurTok := tok_eof, NumVal := '' 4'', NumStr_calls := 2\<rparr>)"
  using ParseTopLevelExpr_anonymous_function
    [of "\<lambda>t. t" 10 after_3 "BinaryExprAST CHR ''+'' (NumberExprAST '' 3'') (NumberExprAST '' 4'')"
      "after_3\<lparr>input := [], LastChar := EOF, CurTok := tok_eof, NumVal := '' 4'', NumStr_calls := 2\<rparr>"]
    ParseExpression_after_3
  by blast

lemma ParseParenExpr_Some:
  assumes "ParseParenExpr strtod (Suc n) s = Returns (Some W, s3)"
  shows "\<exists>t s1 s2 t'. getNextToken strtod s = Returns (t, s1) \<and>
           ParseExpression strtod n s1 = Returns (Some W, s2) \<and>
           CurTok s2 = 41 \<and> getNextToken strtod s2 = Returns (t', s3)"
proof -
  from assms obtain t s1 where g1: "getNextToken strtod s = Returns (t, s1)"
    and r1: "and_then (ParseExpression strtod n s1) (\<lambda>(V, s2).
       case V of
         None \<Rightarrow> Returns (None, s2)
       | Some V' \<Rightarrow>
           if CurTok s2 \<noteq> 41 then Returns (Error (''expected ')'' @ [CHR 0x27]) s2)
           else and_then (getNextToken strtod s2) (\<lambda>(_, s3). Returns (Some V', s3))) = Returns (Some W, s3)"
    by (auto simp: and_then_Returns_iff)
  from r1 obtain V s2 where e: "ParseExpression strtod n s1 = Returns (V, s2)"
    and r2: "(case V of
         None \<Rightarrow> Returns (None, s2)
       | Some V' \<Rightarrow>
           if CurTok s2 \<noteq> 41 then Returns (Error (''expected ')'' @ [CHR 0x27]) s2)
           else and_then (getNextToken strtod s2) (\<lambda>(_, s3). Returns (Some V', s3))) = Returns (Some W, s3)"
    by (auto simp: and_then_Returns_iff)
  from r2 obtain V' where V: "V = Some V'"
    by (cases V) auto
  from r2 V have c: "CurTok s2 = 41"
    by (auto simp: Error_def split: if_splits)
  from r2 V c obtain t' where "getNextToken strtod s2 = Returns (t', s3)" "V' = W"
    by (auto simp: and_then_Returns_iff)
  with g1 e V c show ?thesis by blast
qed

section \<open>What a call of the lexer leaves alone\<close>

lemma read_LastChar_shape: "\<exists>i l. read_LastChar s = s\<lparr>input := i, LastChar := l\<rparr>"
proof (cases "input s")
  case Nil
  then have "read_LastChar s = s\<lparr>input := [], LastChar := EOF\<rparr>"
    by (simp add: read_LastChar_Nil)
  then show ?thesis by blast
next
  case (Cons c cs)
  then have "read_LastChar s = s\<lparr>input := cs, LastChar := of_char c\<rparr>"
    by (simp add: read_LastChar_Cons)
  then show ?thesis by blast
qed

lemma skip_space_shape: "\<exists>i l. skip_space s = s\<lparr>input := i, LastChar := l\<rparr>"
proof (induction s rule: skip_space.induct)
  case (1 s)
  show ?case
  proof (cases "isspace (LastChar s)")
    case True
    from "1.IH" [OF True] obtain i l where "skip_space (read_LastChar s) = (read_LastChar s)\<lparr>input := i, LastChar := l\<rparr>"
      by blast
    moreover obtain i0 l0 where "read_LastChar s = s\<lparr>input := i0, LastChar := l0\<rparr>"
      using read_LastChar_shape [of s] by blast
    ultimately have "skip_space s = s\<lparr>input := i, LastChar := l\<rparr>"
      using skip_space_step [OF True] by simp
    then show ?thesis by blast
  next
    case False
    then have "skip_space s = s\<lparr>input := input s, LastChar := LastChar s\<rparr>"
      by (simp add: skip_space_stop)
    then show ?thesis by blast
  qed
qed

lemma comment_loop_shape: "\<exists>i l. comment_loop s = s\<lparr>input := i, LastChar := l\<rparr>"
proof (induction s rule: comment_loop.induct)
  case (1 s)
  let ?s1 = "read_LastChar s"
  obtain i0 l0 where r: "?s1 = s\<lparr>input := i0, LastChar := l0\<rparr>"
    using read_LastChar_shape [of s] by blast
  show ?case
  proof (cases "LastChar ?s1 \<noteq> EOF \<and> LastChar ?s1 \<noteq> 10 \<and> LastChar ?s1 \<noteq> 13")
    case True
    then have "comment_loop s = comment_loop ?s1"
      using comment_loop.simps [of s] by (simp add: Let_def)
    moreover from "1.IH" [OF refl True] obtain i l where "comment_loop ?s1 = ?s1\<lparr>input := i, LastChar := l\<rparr>"
      by blast
    ultimately have "comment_loop s = s\<lparr>input := i, LastChar := l\<rparr>"
      using r by simp
    then show ?thesis by blast
  next
    case False
    then have "comment_loop s = ?s1"
      using comment_loop.simps [of s] by (auto simp: Let_def)
    with r show ?thesis by auto
  qed
qed

lemma ident_loop_shape:
  "ident_loop k s = Returns (j, s') \<Longrightarrow> \<exists>i l n. s' = s\<lparr>input := i, LastChar := l, IdentifierStr := n\<rparr>"
proof (induction k s rule: ident_loop.induct)
  case (1 charIndex s)
  let ?s1 = "read_LastChar s"
  let ?s2 = "?s1\<lparr>IdentifierStr := (IdentifierStr ?s1)(charIndex := char_of (LastChar ?s1))\<rparr>"
  obtain i0 l0 where r: "?s1 = s\<lparr>input := i0, LastChar := l0\<rparr>"
    using read_LastChar_shape [of s] by blast
  show ?case
  proof (cases "isalnum (LastChar ?s1)")
    case True
    with "1.prems" have lt: "charIndex < 64" and rec: "ident_loop (charIndex + 1) ?s2 = Returns (j, s')"
      using ident_loop.simps [of charIndex s] by (auto simp: Let_def split: if_splits)
    from "1.IH" [OF refl True lt rec] obtain i l n where "s' = ?s2\<lparr>input := i, LastChar := l, IdentifierStr := n\<rparr>"
      by blast
    with r have "s' = s\<lparr>input := i, LastChar := l, IdentifierStr := n\<rparr>"
      by simp
    then show ?thesis by blast
  next
    case False
    with "1.prems" have "s' = ?s1"
      using ident_loop.simps [of charIndex s] by (auto simp: Let_def)
    with r have "s' = s\<lparr>input := i0, LastChar := l0, IdentifierStr := IdentifierStr s\<rparr>"
      by simp
    then show ?thesis by blast
  qed
qed

lemma num_loop_shape:
  "num_loop B k s = Returns (B', j, s') \<Longrightarrow> \<exists>i l. s' = s\<lparr>input := i, LastChar := l\<rparr>"
proof (induction B k s rule: num_loop.induct)
  case (1 NumStr charIndex s)
  let ?s1 = "read_LastChar s"
  let ?b = "NumStr(charIndex := char_of (LastChar s))"
  obtain i0 l0 where r: "?s1 = s\<lparr>input := i0, LastChar := l0\<rparr>"
    using read_LastChar_shape [of s] by blast
  from "1.prems" have lt: "charIndex < 64"
    using num_loop.simps [of NumStr charIndex s] by (auto split: if_splits)
  show ?case
  proof (cases "isdigit (LastChar ?s1) \<or> LastChar ?s1 = 46")
    case True
    with "1.prems" lt have rec: "num_loop ?b (charIndex + 1) ?s1 = Returns (B', j, s')"
      using num_loop.simps [of NumStr charIndex s] by (auto simp: Let_def)
    from "1.IH" [OF lt refl refl True rec] obtain i l where "s' = ?s1\<lparr>input := i, LastChar := l\<rparr>"
      by blast
    with r have "s' = s\<lparr>input := i, LastChar := l\<rparr>"
      by simp
    then show ?thesis by blast
  next
    case False
    with "1.prems" lt have "s' = ?s1"
      using num_loop.simps [of NumStr charIndex s] by (auto simp: Let_def)
    with r show ?thesis by blast
  qed
qed

lemma gettok_shape:
  "gettok strtod s0 = Returns (t, s') \<Longrightarrow>
     \<exists>i l n v c. s' = s0\<lparr>input := i, LastChar := l, IdentifierStr := n, NumVal := v, NumStr_calls := c\<rparr>"
proof (induction strtod s0 rule: gettok.induct)
  case (1 strtod s0)
  let ?s = "skip_space s0"
  note ret = "1.prems"
  obtain i0 l0 where sk: "?s = s0\<lparr>input := i0, LastChar := l0\<rparr>"
    using skip_space_shape [of s0] by blast
  have shape: "\<exists>i l n v c. s' = s0\<lparr>input := i, LastChar := l, IdentifierStr := n, NumVal := v, NumStr_calls := c\<rparr>"
    if "s' = ?s\<lparr>input := i, LastChar := l, IdentifierStr := n, NumVal := v, NumStr_calls := c\<rparr>" for i l n v c
  proof -
    from that sk have "s' = s0\<lparr>input := i, LastChar := l, IdentifierStr := n, NumVal := v, NumStr_calls := c\<rparr>"
      by simp
    then show ?thesis by blast
  qed
  consider (ident) "isalpha (LastChar ?s)"
    | (num) "\<not> isalpha (LastChar ?s)" "isdigit (LastChar ?s) \<or> LastChar ?s = 46"
    | (retry) "\<not> isalpha (LastChar ?s)" "\<not> (isdigit (LastChar ?s) \<or> LastChar ?s = 46)"
        "LastChar ?s = 35 \<and> LastChar (comment_loop ?s) \<noteq> EOF"
    | (other) "\<not> isalpha (LastChar ?s)" "\<not> (isdigit (LastChar ?s) \<or> LastChar ?s = 46)"
        "\<not> (LastChar ?s = 35 \<and> LastChar (comment_loop ?s) \<noteq> EOF)"
    by blast
  then show ?case
  proof cases
    case ident
    let ?a = "?s\<lparr>IdentifierStr := (IdentifierStr ?s)(0 := char_of (LastChar ?s))\<rparr>"
    from ident ret obtain ci s1 where il: "ident_loop 1 ?a = Returns (ci, s1)"
      and u: "s' = s1\<lparr>IdentifierStr := (IdentifierStr s1)(ci := CHR 0x00)\<rparr>"
      using gettok.simps [of strtod s0]
      by (cases "ident_loop 1 ?a") (auto simp: Let_def split: if_splits)
    from ident_loop_shape [OF il] obtain i l n where "s1 = ?a\<lparr>input := i, LastChar := l, IdentifierStr := n\<rparr>"
      by blast
    with u have "s' = ?s\<lparr>input := i, LastChar := l, IdentifierStr := n(ci := CHR 0x00), NumVal := NumVal ?s,
        NumStr_calls := NumStr_calls ?s\<rparr>"
      by simp
    then show ?thesis by (rule shape)
  next
    case num
    let ?a = "?s\<lparr>NumStr_calls := NumStr_calls ?s + 1\<rparr>"
    from num ret obtain b ci s1 str where nl: "num_loop (NumStr_uninit ?s (NumStr_calls ?s)) 1 ?a = Returns (b, ci, s1)"
      and u: "s' = s1\<lparr>NumVal := strtod str\<rparr>"
      using gettok.simps [of strtod s0]
      by (cases "num_loop (NumStr_uninit ?s (NumStr_calls ?s)) 1 ?a")
        (auto simp: Let_def split: if_splits option.splits)
    from num_loop_shape [OF nl] obtain i l where "s1 = ?a\<lparr>input := i, LastChar := l\<rparr>"
      by blast
    with u have "s' = ?s\<lparr>input := i, LastChar := l, IdentifierStr := IdentifierStr ?s, NumVal := strtod str,
        NumStr_calls := NumStr_calls ?s + 1\<rparr>"
      by simp
    then show ?thesis by (rule shape)
  next
    case retry
    with ret have "gettok strtod (comment_loop ?s) = Returns (t, s')"
      using gettok.simps [of strtod s0] by (simp add: Let_def)
    from "1.IH" [OF refl retry this] obtain i l n v c
      where "s' = (comment_loop ?s)\<lparr>input := i, LastChar := l, IdentifierStr := n, NumVal := v, NumStr_calls := c\<rparr>"
      by blast
    moreover obtain i1 l1 where "comment_loop ?s = ?s\<lparr>input := i1, LastChar := l1\<rparr>"
      using comment_loop_shape [of ?s] by blast
    ultimately have "s' = ?s\<lparr>input := i, LastChar := l, IdentifierStr := n, NumVal := v, NumStr_calls := c\<rparr>"
      by simp
    then show ?thesis by (rule shape)
  next
    case other
    let ?s1 = "if LastChar ?s = 35 then comment_loop ?s else ?s"
    obtain i1 l1 where c: "?s1 = ?s\<lparr>input := i1, LastChar := l1\<rparr>"
    proof (cases "LastChar ?s = 35")
      case True
      then show ?thesis
        using comment_loop_shape [of ?s] that by auto
    next
      case False
      then have "?s1 = ?s\<lparr>input := input ?s, LastChar := LastChar ?s\<rparr>"
        by simp
      then show ?thesis by (rule that)
    qed
    obtain i2 l2 where r: "read_LastChar ?s1 = ?s1\<lparr>input := i2, LastChar := l2\<rparr>"
      using read_LastChar_shape [of ?s1] by blast
    from other ret have "s' = ?s1 \<or> s' = read_LastChar ?s1"
      using gettok.simps [of strtod s0] by (auto simp: Let_def split: if_splits)
    then have "\<exists>i l. s' = ?s\<lparr>input := i, LastChar := l, IdentifierStr := IdentifierStr ?s, NumVal := NumVal ?s,
        NumStr_calls := NumStr_calls ?s\<rparr>"
    proof
      assume "s' = ?s1"
      with c have "s' = ?s\<lparr>input := i1, LastChar := l1, IdentifierStr := IdentifierStr ?s, NumVal := NumVal ?s,
        NumStr_calls := NumStr_calls ?s\<rparr>"
        by simp
      then show ?thesis by blast
    next
      assume "s' = read_LastChar ?s1"
      with r c have "s' = ?s\<lparr>input := i2, LastChar := l2, IdentifierStr := IdentifierStr ?s, NumVal := NumVal ?s,
        NumStr_calls := NumStr_calls ?s\<rparr>"
        by simp
      then show ?thesis by blast
    qed
    then show ?thesis using shape by blast
  qed
qed

section \<open>An expression between parentheses\<close>

text \<open>
  The lexer of the run on \<^verbatim>\<open>(e)\<close> follows the lexer of the run on \<open>e\<close>, token by token, up
  to the end of \<open>e\<close>, where the first returns the token \<^verbatim>\<open>)\<close> and the second the end of the
  input.
\<close>

lemma of_char_eq_35: "(of_char c :: int) = 35 \<longleftrightarrow> c = CHR ''#''"
proof -
  have "(of_char (CHR ''#'') :: int) = 35" by simp
  then show ?thesis by (metis of_char_eq_iff)
qed

lemma comments_closed_append: "comments_closed (xs @ ys) \<Longrightarrow> comments_closed ys"
  by (induction xs) simp_all

lemma before_close_fields [simp]:
  "before_close rest (a\<lparr>IdentifierStr := n\<rparr>) b = before_close rest a b"
  "before_close rest a (b\<lparr>IdentifierStr := n'\<rparr>) = before_close rest a b"
  "before_close rest (a\<lparr>NumVal := v\<rparr>) b = before_close rest a b"
  "before_close rest a (b\<lparr>NumVal := v'\<rparr>) = before_close rest a b"
  "before_close rest (a\<lparr>NumStr_calls := c\<rparr>) b = before_close rest a b"
  "before_close rest a (b\<lparr>NumStr_calls := c'\<rparr>) = before_close rest a b"
  "before_close rest (a\<lparr>CurTok := t\<rparr>) b = before_close rest a b"
  "before_close rest a (b\<lparr>CurTok := t'\<rparr>) = before_close rest a b"
  by (simp_all add: before_close_def)

lemma before_close_LastChar:
  "before_close rest a b \<Longrightarrow> LastChar a \<noteq> EOF \<Longrightarrow> LastChar b = LastChar a"
  "before_close rest a b \<Longrightarrow> LastChar a = EOF \<Longrightarrow> LastChar b = 41"
  by (simp_all add: before_close_def)

lemma before_close_read_LastChar:
  assumes "before_close rest a b" "LastChar a \<noteq> EOF"
  shows "before_close rest (read_LastChar a) (read_LastChar b)"
proof (cases "input a")
  case Nil
  with assms have "input b = CHR '')'' # rest"
    by (simp add: before_close_def)
  with Nil show ?thesis
    by (simp add: before_close_def read_LastChar_Cons read_LastChar_Nil EOF_def)
next
  case (Cons c cs)
  with assms have "input b = c # cs @ CHR '')'' # rest"
    by (simp add: before_close_def)
  with Cons assms show ?thesis
    by (simp add: before_close_def read_LastChar_Cons of_char_not_EOF of_char_eq_35)
qed

lemma before_close_skip_space:
  "before_close rest a b \<Longrightarrow> before_close rest (skip_space a) (skip_space b)"
proof (induction a arbitrary: b rule: skip_space.induct)
  case (1 a)
  show ?case
  proof (cases "isspace (LastChar a)")
    case True
    then have ne: "LastChar a \<noteq> EOF"
      by (auto simp: isspace_def EOF_def)
    with "1.prems" have "LastChar b = LastChar a"
      by (simp add: before_close_def)
    with True have "skip_space b = skip_space (read_LastChar b)"
      by (simp add: skip_space_step)
    moreover have "skip_space a = skip_space (read_LastChar a)"
      using True by (rule skip_space_step)
    moreover have "before_close rest (skip_space (read_LastChar a)) (skip_space (read_LastChar b))"
      using True "1.prems" ne by (intro "1.IH" before_close_read_LastChar)
    ultimately show ?thesis by simp
  next
    case False
    have "\<not> isspace (LastChar b)"
    proof (cases "LastChar a = EOF")
      case True
      with "1.prems" have "LastChar b = 41" by (simp add: before_close_def)
      then show ?thesis by (simp add: isspace_def)
    next
      case ne: False
      with "1.prems" have "LastChar b = LastChar a" by (simp add: before_close_def)
      with False show ?thesis by simp
    qed
    with False "1.prems" show ?thesis
      by (simp add: skip_space_stop)
  qed
qed

lemma ident_loop_sim:
  assumes "before_close rest a b" "LastChar a \<noteq> EOF" "IdentifierStr b = IdentifierStr a"
    and "ident_loop k a = Returns (j, a')"
  shows "\<exists>b'. ident_loop k b = Returns (j, b') \<and> before_close rest a' b' \<and> IdentifierStr b' = IdentifierStr a'"
  using assms
proof (induction k a arbitrary: b rule: ident_loop.induct)
  case (1 charIndex a)
  let ?a1 = "read_LastChar a"
  let ?b1 = "read_LastChar b"
  let ?a2 = "?a1\<lparr>IdentifierStr := (IdentifierStr ?a1)(charIndex := char_of (LastChar ?a1))\<rparr>"
  let ?b2 = "?b1\<lparr>IdentifierStr := (IdentifierStr ?b1)(charIndex := char_of (LastChar ?b1))\<rparr>"
  have bc: "before_close rest ?a1 ?b1"
    using "1.prems"(1,2) by (rule before_close_read_LastChar)
  obtain ia la where ra: "?a1 = a\<lparr>input := ia, LastChar := la\<rparr>"
    using read_LastChar_shape [of a] by blast
  obtain ib lb where rb: "?b1 = b\<lparr>input := ib, LastChar := lb\<rparr>"
    using read_LastChar_shape [of b] by blast
  from ra rb "1.prems"(3) have names: "IdentifierStr ?b1 = IdentifierStr ?a1"
    by simp
  show ?case
  proof (cases "isalnum (LastChar ?a1)")
    case True
    then have ne: "LastChar ?a1 \<noteq> EOF"
      by (auto simp: isalnum_def isalpha_def isdigit_def EOF_def)
    with bc have same: "LastChar ?b1 = LastChar ?a1"
      by (simp add: before_close_def)
    from True "1.prems"(4) have lt: "charIndex < 64" and rec: "ident_loop (charIndex + 1) ?a2 = Returns (j, a')"
      using ident_loop.simps [of charIndex a] by (auto simp: Let_def split: if_splits)
    have "\<exists>b'. ident_loop (charIndex + 1) ?b2 = Returns (j, b') \<and> before_close rest a' b' \<and>
        IdentifierStr b' = IdentifierStr a'"
      using True lt bc ne names same rec by (intro "1.IH" [OF refl]) simp_all
    moreover from True same lt have "ident_loop charIndex b = ident_loop (charIndex + 1) ?b2"
      using ident_loop.simps [of charIndex b] by (simp add: Let_def)
    ultimately show ?thesis by simp
  next
    case False
    with "1.prems"(4) have a': "a' = ?a1" and j: "j = charIndex"
      using ident_loop.simps [of charIndex a] by (auto simp: Let_def)
    have "\<not> isalnum (LastChar ?b1)"
    proof (cases "LastChar ?a1 = EOF")
      case True
      with bc have "LastChar ?b1 = 41" by (simp add: before_close_def)
      then show ?thesis by (simp add: isalnum_def isalpha_def isdigit_def)
    next
      case ne: False
      with bc have "LastChar ?b1 = LastChar ?a1" by (simp add: before_close_def)
      with False show ?thesis by simp
    qed
    then have "ident_loop charIndex b = Returns (charIndex, ?b1)"
      using ident_loop.simps [of charIndex b] by (simp add: Let_def)
    with a' j bc names show ?thesis by simp
  qed
qed

lemma num_loop_sim:
  assumes "before_close rest a b" "LastChar a \<noteq> EOF" "\<forall>i. 1 \<le> i \<and> i < k \<longrightarrow> B i = A i"
    and "num_loop A k a = Returns (A', j, a')"
  shows "\<exists>B' b'. num_loop B k b = Returns (B', j, b') \<and> before_close rest a' b' \<and>
           (\<forall>i. 1 \<le> i \<and> i < j \<longrightarrow> B' i = A' i) \<and> (1 \<le> k \<longrightarrow> A' 0 = A 0 \<and> B' 0 = B 0) \<and> k < j"
  using assms
proof (induction A k a arbitrary: b B rule: num_loop.induct)
  case (1 NumStr charIndex a)
  let ?a1 = "read_LastChar a"
  let ?b1 = "read_LastChar b"
  let ?A = "NumStr(charIndex := char_of (LastChar a))"
  let ?B = "B(charIndex := char_of (LastChar b))"
  from "1.prems"(4) have lt: "charIndex < 64"
    using num_loop.simps [of NumStr charIndex a] by (auto split: if_splits)
  from "1.prems"(1,2) have same0: "LastChar b = LastChar a"
    by (simp add: before_close_def)
  have bc: "before_close rest ?a1 ?b1"
    using "1.prems"(1,2) by (rule before_close_read_LastChar)
  from "1.prems"(3) same0 have cells: "\<forall>i. 1 \<le> i \<and> i < charIndex + 1 \<longrightarrow> ?B i = ?A i"
    by auto
  show ?case
  proof (cases "isdigit (LastChar ?a1) \<or> LastChar ?a1 = 46")
    case True
    then have ne: "LastChar ?a1 \<noteq> EOF"
      by (auto simp: isdigit_def EOF_def)
    with bc have same: "LastChar ?b1 = LastChar ?a1"
      by (simp add: before_close_def)
    from True "1.prems"(4) lt have rec: "num_loop ?A (charIndex + 1) ?a1 = Returns (A', j, a')"
      using num_loop.simps [of NumStr charIndex a] by (auto simp: Let_def)
    have "\<exists>B' b'. num_loop ?B (charIndex + 1) ?b1 = Returns (B', j, b') \<and> before_close rest a' b' \<and>
           (\<forall>i. 1 \<le> i \<and> i < j \<longrightarrow> B' i = A' i) \<and> (1 \<le> charIndex + 1 \<longrightarrow> A' 0 = ?A 0 \<and> B' 0 = ?B 0) \<and>
           charIndex + 1 < j"
      using lt True bc ne cells rec by (intro "1.IH" [OF _ refl refl]) (simp_all add: fun_upd_def)
    moreover from True same lt have "num_loop B charIndex b = num_loop ?B (charIndex + 1) ?b1"
      using num_loop.simps [of B charIndex b] by (simp add: Let_def)
    ultimately show ?thesis by auto
  next
    case False
    with "1.prems"(4) lt have a': "a' = ?a1" and j: "j = charIndex + 1" and A': "A' = ?A"
      using num_loop.simps [of NumStr charIndex a] by (auto simp: Let_def)
    have "\<not> (isdigit (LastChar ?b1) \<or> LastChar ?b1 = 46)"
    proof (cases "LastChar ?a1 = EOF")
      case True
      with bc have "LastChar ?b1 = 41" by (simp add: before_close_def)
      then show ?thesis by (simp add: isdigit_def)
    next
      case ne: False
      with bc have "LastChar ?b1 = LastChar ?a1" by (simp add: before_close_def)
      with False show ?thesis by simp
    qed
    with lt have "num_loop B charIndex b = Returns (?B, charIndex + 1, ?b1)"
      using num_loop.simps [of B charIndex b] by (simp add: Let_def)
    with a' j A' bc cells show ?thesis by auto
  qed
qed

lemma comment_loop_sim:
  assumes "before_close rest a b" "LastChar a = 35"
  shows "before_close rest (comment_loop a) (comment_loop b) \<and> LastChar (comment_loop a) \<noteq> EOF"
proof -
  from assms have "\<exists>x\<in>set (input a). end_of_line x"
    by (simp add: before_close_def list_ex_iff)
  then obtain cmt nl r where split: "input a = cmt @ nl # r" and nl: "end_of_line nl"
    and cmt: "\<forall>c\<in>set cmt. \<not> end_of_line c"
    using split_list_first_prop [of "input a" end_of_line] by blast
  from assms split have inb: "input b = cmt @ nl # (r @ CHR '')'' # rest)"
    by (simp add: before_close_def EOF_def)
  from cmt have cmt': "\<forall>c\<in>set cmt. c \<noteq> CHR 0x0A \<and> c \<noteq> CHR 0x0D"
    by (simp add: end_of_line_def)
  from nl have nl': "nl = CHR 0x0A \<or> nl = CHR 0x0D"
    by (simp add: end_of_line_def)
  have ca: "comment_loop a = a\<lparr>input := r, LastChar := of_char nl\<rparr>"
    using split cmt' nl' by (rule comment_loop_line)
  have cb: "comment_loop b = b\<lparr>input := r @ CHR '')'' # rest, LastChar := of_char nl\<rparr>"
    using inb cmt' nl' by (rule comment_loop_line)
  from assms split have "comments_closed r"
    using comments_closed_append [of "cmt @ [nl]" r] by (simp add: before_close_def)
  moreover from nl' have "(of_char nl :: int) \<noteq> 35"
    by (auto simp: of_char_eq_35)
  ultimately show ?thesis
    using ca cb by (simp add: before_close_def of_char_not_EOF)
qed

lemma c_str_agree:
  "\<forall>i. k \<le> i \<and> i \<le> j \<longrightarrow> B i = A i \<Longrightarrow> A j = CHR 0x00 \<Longrightarrow> k \<le> j \<Longrightarrow> j < k + n \<Longrightarrow>
     c_str B k n = c_str A k n \<and> c_str A k n \<noteq> None"
proof (induction n arbitrary: k)
  case 0
  then show ?case by simp
next
  case (Suc n)
  show ?case
  proof (cases "A k = CHR 0x00")
    case True
    with Suc.prems have "B k = CHR 0x00" by simp
    with True show ?thesis by simp
  next
    case False
    with Suc.prems have "k \<noteq> j" by auto
    with Suc.prems have "c_str B (Suc k) n = c_str A (Suc k) n \<and> c_str A (Suc k) n \<noteq> None"
      by (intro Suc.IH) auto
    moreover from Suc.prems have "B k = A k" by simp
    ultimately show ?thesis
      using False by (auto split: option.splits)
  qed
qed

lemma same_values_fields [simp]:
  "same_values Rv fA fB (a\<lparr>input := i\<rparr>) b = same_values Rv fA fB a b"
  "same_values Rv fA fB a (b\<lparr>input := i'\<rparr>) = same_values Rv fA fB a b"
  "same_values Rv fA fB (a\<lparr>LastChar := l\<rparr>) b = same_values Rv fA fB a b"
  "same_values Rv fA fB a (b\<lparr>LastChar := l'\<rparr>) = same_values Rv fA fB a b"
  "same_values Rv fA fB (a\<lparr>IdentifierStr := n\<rparr>) b = same_values Rv fA fB a b"
  "same_values Rv fA fB a (b\<lparr>IdentifierStr := n'\<rparr>) = same_values Rv fA fB a b"
  "same_values Rv fA fB (a\<lparr>CurTok := t\<rparr>) b = same_values Rv fA fB a b"
  "same_values Rv fA fB a (b\<lparr>CurTok := t'\<rparr>) = same_values Rv fA fB a b"
  by (simp_all add: same_values_def)

lemma same_values_number:
  assumes "same_values Rv fA fB a b"
  shows "same_values Rv fA fB
    (a\<lparr>NumStr_calls := NumStr_calls a + 1, NumVal := fA (c_cons (NumStr_uninit a (NumStr_calls a) 0) t)\<rparr>)
    (b\<lparr>NumStr_calls := NumStr_calls b + 1, NumVal := fB (c_cons (NumStr_uninit b (NumStr_calls b) 0) t)\<rparr>)"
proof -
  from assms have all: "\<And>k t. Rv (fA (c_cons (NumStr_uninit a (NumStr_calls a + k) 0) t))
                (fB (c_cons (NumStr_uninit b (NumStr_calls b + k) 0) t))"
    by (simp add: same_values_def)
  from all [of 0 t] all [of "Suc _"] show ?thesis
    by (simp add: same_values_def)
qed

lemma gettok_sim:
  assumes "before_close rest a b" "IdentifierStr b = IdentifierStr a" "same_values Rv fA fB a b"
    and "gettok fA a = Returns (t, a')"
  shows "\<exists>b'. gettok fB b = Returns (if t = tok_eof then 41 else t, b')
      \<and> IdentifierStr b' = IdentifierStr a' \<and> same_values Rv fA fB a' b'
      \<and> (if t = tok_eof then LastChar b' = (case rest of [] \<Rightarrow> EOF | c # cs \<Rightarrow> of_char c) \<and> input b' = tl rest
         else before_close rest a' b')"
  using assms
proof (induction fA a arbitrary: b rule: gettok.induct)
  case (1 fA a)
  let ?sa = "skip_space a"
  let ?sb = "skip_space b"
  note ret = "1.prems"(4)
  have bc: "before_close rest ?sa ?sb"
    using "1.prems"(1) by (rule before_close_skip_space)
  obtain ia la where sa: "?sa = a\<lparr>input := ia, LastChar := la\<rparr>"
    using skip_space_shape [of a] by blast
  obtain ib lb where sb: "?sb = b\<lparr>input := ib, LastChar := lb\<rparr>"
    using skip_space_shape [of b] by blast
  from sa sb "1.prems"(2) have names: "IdentifierStr ?sb = IdentifierStr ?sa"
    by simp
  from sa sb "1.prems"(3) have vals: "same_values Rv fA fB ?sa ?sb"
    by simp
  consider (ident) "isalpha (LastChar ?sa)"
    | (num) "\<not> isalpha (LastChar ?sa)" "isdigit (LastChar ?sa) \<or> LastChar ?sa = 46"
    | (retry) "\<not> isalpha (LastChar ?sa)" "\<not> (isdigit (LastChar ?sa) \<or> LastChar ?sa = 46)"
        "LastChar ?sa = 35 \<and> LastChar (comment_loop ?sa) \<noteq> EOF"
    | (other) "\<not> isalpha (LastChar ?sa)" "\<not> (isdigit (LastChar ?sa) \<or> LastChar ?sa = 46)"
        "\<not> (LastChar ?sa = 35 \<and> LastChar (comment_loop ?sa) \<noteq> EOF)"
    by blast
  then show ?case
  proof cases
    case ident
    then have ne: "LastChar ?sa \<noteq> EOF"
      by (auto simp: isalpha_def EOF_def)
    with bc have same: "LastChar ?sb = LastChar ?sa"
      by (simp add: before_close_def)
    let ?a0 = "?sa\<lparr>IdentifierStr := (IdentifierStr ?sa)(0 := char_of (LastChar ?sa))\<rparr>"
    let ?b0 = "?sb\<lparr>IdentifierStr := (IdentifierStr ?sb)(0 := char_of (LastChar ?sb))\<rparr>"
    from ident ret obtain ci a1 where il: "ident_loop 1 ?a0 = Returns (ci, a1)" and lt: "ci < 64"
      and a': "a' = a1\<lparr>IdentifierStr := (IdentifierStr a1)(ci := CHR 0x00)\<rparr>"
      and t: "t = (if strcmp_eq (IdentifierStr a') ''def'' then tok_def
                   else if strcmp_eq (IdentifierStr a') ''extern'' then tok_extern else tok_identifier)"
      using gettok.simps [of fA a]
      by (cases "ident_loop 1 ?a0") (auto simp: Let_def split: if_splits)
    have "\<exists>b1. ident_loop 1 ?b0 = Returns (ci, b1) \<and> before_close rest a1 b1 \<and> IdentifierStr b1 = IdentifierStr a1"
      using bc ne names same il by (intro ident_loop_sim [where a = ?a0]) simp_all
    then obtain b1 where ilb: "ident_loop 1 ?b0 = Returns (ci, b1)" and bc1: "before_close rest a1 b1"
      and names1: "IdentifierStr b1 = IdentifierStr a1"
      by blast
    let ?b' = "b1\<lparr>IdentifierStr := (IdentifierStr b1)(ci := CHR 0x00)\<rparr>"
    from names1 a' have names': "IdentifierStr ?b' = IdentifierStr a'"
      by simp
    from ident same ilb lt names' t have "gettok fB b = Returns (t, ?b')"
      using gettok.simps [of fB b] by (simp add: Let_def)
    moreover from t have "t \<noteq> tok_eof"
      by (simp add: tok_eof_def tok_def_def tok_extern_def tok_identifier_def)
    moreover have "same_values Rv fA fB a' ?b'"
    proof -
      from ident_loop_shape [OF il] obtain i l n where "a1 = ?a0\<lparr>input := i, LastChar := l, IdentifierStr := n\<rparr>"
        by blast
      moreover from ident_loop_shape [OF ilb] obtain i' l' n' where "b1 = ?b0\<lparr>input := i', LastChar := l', IdentifierStr := n'\<rparr>"
        by blast
      ultimately show ?thesis
        using vals a' by simp
    qed
    ultimately show ?thesis
      using bc1 names' a' by auto
  next
    case num
    then have ne: "LastChar ?sa \<noteq> EOF"
      by (auto simp: isdigit_def EOF_def)
    with bc have same: "LastChar ?sb = LastChar ?sa"
      by (simp add: before_close_def)
    let ?a0 = "?sa\<lparr>NumStr_calls := NumStr_calls ?sa + 1\<rparr>"
    let ?b0 = "?sb\<lparr>NumStr_calls := NumStr_calls ?sb + 1\<rparr>"
    let ?A = "NumStr_uninit ?sa (NumStr_calls ?sa)"
    let ?B = "NumStr_uninit ?sb (NumStr_calls ?sb)"
    from num ret obtain A' ci a1 str where nl: "num_loop ?A 1 ?a0 = Returns (A', ci, a1)" and lt: "ci < 64"
      and str: "c_string (A'(ci := CHR 0x00)) = Some str"
      and a': "a' = a1\<lparr>NumVal := fA str\<rparr>" and t: "t = tok_number"
      using gettok.simps [of fA a]
      by (cases "num_loop ?A 1 ?a0") (auto simp: Let_def split: if_splits option.splits)
    have "\<exists>B' b1. num_loop ?B 1 ?b0 = Returns (B', ci, b1) \<and> before_close rest a1 b1 \<and>
           (\<forall>i. 1 \<le> i \<and> i < ci \<longrightarrow> B' i = A' i) \<and> ((1::nat) \<le> 1 \<longrightarrow> A' 0 = ?A 0 \<and> B' 0 = ?B 0) \<and> 1 < ci"
      using bc ne nl by (intro num_loop_sim [where a = ?a0]) simp_all
    then obtain B' b1 where nlb: "num_loop ?B 1 ?b0 = Returns (B', ci, b1)" and bc1: "before_close rest a1 b1"
      and cells: "\<forall>i. 1 \<le> i \<and> i < ci \<longrightarrow> B' i = A' i" and A0: "A' 0 = ?A 0" and B0: "B' 0 = ?B 0"
      and ci: "1 < ci"
      by auto
    let ?A' = "A'(ci := CHR 0x00)"
    let ?B' = "B'(ci := CHR 0x00)"
    have "c_str ?B' (Suc 0) 63 = c_str ?A' (Suc 0) 63 \<and> c_str ?A' (Suc 0) 63 \<noteq> None"
      using cells ci lt by (intro c_str_agree [where j = ci]) auto
    then obtain w where wA: "c_str ?A' (Suc 0) 63 = Some w" and wB: "c_str ?B' (Suc 0) 63 = Some w"
      by auto
    from wA str ci A0 have strA: "str = c_cons (?A 0) w"
      by (simp add: c_string_first)
    from wB ci B0 have strB: "c_string ?B' = Some (c_cons (?B 0) w)"
      by (simp add: c_string_first)
    let ?b' = "b1\<lparr>NumVal := fB (c_cons (?B 0) w)\<rparr>"
    from num same nlb lt strB have "gettok fB b = Returns (tok_number, ?b')"
      using gettok.simps [of fB b] by (simp add: Let_def)
    moreover from t have "t \<noteq> tok_eof"
      by (simp add: tok_eof_def tok_number_def)
    moreover have "same_values Rv fA fB a' ?b'"
    proof -
      from num_loop_shape [OF nl] obtain i l where a1: "a1 = ?a0\<lparr>input := i, LastChar := l\<rparr>"
        by blast
      from num_loop_shape [OF nlb] obtain i' l' where b1: "b1 = ?b0\<lparr>input := i', LastChar := l'\<rparr>"
        by blast
      from same_values_number [OF vals, of w] a1 b1 a' strA show ?thesis
        by (simp add: same_values_def)
    qed
    moreover have "IdentifierStr ?b' = IdentifierStr a'"
    proof -
      from num_loop_shape [OF nl] obtain i l where a1: "a1 = ?a0\<lparr>input := i, LastChar := l\<rparr>"
        by blast
      from num_loop_shape [OF nlb] obtain i' l' where b1: "b1 = ?b0\<lparr>input := i', LastChar := l'\<rparr>"
        by blast
      from a1 b1 a' names show ?thesis
        by simp
    qed
    ultimately show ?thesis
      using bc1 a' t by auto
  next
    case retry
    then have ne: "LastChar ?sa \<noteq> EOF"
      by (simp add: EOF_def)
    with bc have same: "LastChar ?sb = LastChar ?sa"
      by (simp add: before_close_def)
    from retry bc have cl: "before_close rest (comment_loop ?sa) (comment_loop ?sb)"
      using comment_loop_sim [of rest ?sa ?sb] by simp
    with retry have same_c: "LastChar (comment_loop ?sb) = LastChar (comment_loop ?sa)"
      by (simp add: before_close_def)
    obtain i1 l1 where ca: "comment_loop ?sa = ?sa\<lparr>input := i1, LastChar := l1\<rparr>"
      using comment_loop_shape [of ?sa] by blast
    obtain i2 l2 where cb: "comment_loop ?sb = ?sb\<lparr>input := i2, LastChar := l2\<rparr>"
      using comment_loop_shape [of ?sb] by blast
    from retry ret have reta: "gettok fA (comment_loop ?sa) = Returns (t, a')"
      using gettok.simps [of fA a] by (simp add: Let_def)
    from retry same same_c have "gettok fB b = gettok fB (comment_loop ?sb)"
      using gettok.simps [of fB b] by (simp add: Let_def)
    moreover have "\<exists>b'. gettok fB (comment_loop ?sb) = Returns (if t = tok_eof then 41 else t, b')
      \<and> IdentifierStr b' = IdentifierStr a' \<and> same_values Rv fA fB a' b'
      \<and> (if t = tok_eof then LastChar b' = (case rest of [] \<Rightarrow> EOF | c # cs \<Rightarrow> of_char c) \<and> input b' = tl rest
         else before_close rest a' b')"
      using retry cl names vals reta ca cb by (intro "1.IH" [OF refl]) simp_all
    ultimately show ?thesis by simp
  next
    case other
    have no_hash: "LastChar ?sa \<noteq> 35"
      using other(3) comment_loop_sim [OF bc] by blast
    show ?thesis
    proof (cases "LastChar ?sa = EOF")
      case True
      with other no_hash ret have t: "t = tok_eof" and a': "a' = ?sa"
        using gettok.simps [of fA a] by (auto simp: Let_def split: if_splits)
      from True bc have lb: "LastChar ?sb = 41" and inb: "input ?sb = rest"
        by (simp_all add: before_close_def)
      from lb have "gettok fB b = Returns (41, read_LastChar ?sb)"
        using gettok.simps [of fB b] by (simp add: Let_def isalpha_def isdigit_def EOF_def)
      moreover obtain i l where r: "read_LastChar ?sb = ?sb\<lparr>input := i, LastChar := l\<rparr>"
        using read_LastChar_shape [of ?sb] by blast
      moreover have "LastChar (read_LastChar ?sb) = (case rest of [] \<Rightarrow> EOF | c # cs \<Rightarrow> of_char c)
          \<and> input (read_LastChar ?sb) = tl rest"
        using inb by (cases rest) (simp_all add: read_LastChar_Nil read_LastChar_Cons)
      ultimately show ?thesis
        using t a' names vals by auto
    next
      case False
      with other no_hash ret have t: "t = LastChar ?sa" and a': "a' = read_LastChar ?sa"
        using gettok.simps [of fA a] by (auto simp: Let_def split: if_splits)
      from False bc have same: "LastChar ?sb = LastChar ?sa"
        by (simp add: before_close_def)
      with other no_hash False have "gettok fB b = Returns (LastChar ?sb, read_LastChar ?sb)"
        using gettok.simps [of fB b] by (simp add: Let_def)
      moreover from t False have "t \<noteq> tok_eof"
        by (simp add: tok_eof_def EOF_def)
      moreover have "before_close rest (read_LastChar ?sa) (read_LastChar ?sb)"
        using bc False by (rule before_close_read_LastChar)
      moreover obtain i l where "read_LastChar ?sa = ?sa\<lparr>input := i, LastChar := l\<rparr>"
        using read_LastChar_shape [of ?sa] by blast
      moreover obtain i' l' where "read_LastChar ?sb = ?sb\<lparr>input := i', LastChar := l'\<rparr>"
        using read_LastChar_shape [of ?sb] by blast
      ultimately show ?thesis
        using t a' same names vals by auto
    qed
  qed
qed

text \<open>
  The parser of the run on \<^verbatim>\<open>(e)\<close> follows the parser of the run on \<open>e\<close>, as long as this one
  returns nodes.
\<close>

lemma node_simI:
  "(\<And>V a'. ra = Returns (Some V, a') \<Longrightarrow>
      \<exists>V' b'. rb = Returns (Some V', b') \<and> rel_ExprAST Rv V V' \<and> sim Rv fA fB rest a' b') \<Longrightarrow>
   node_sim Rv fA fB rest ra rb"
  by (simp add: node_sim_def)

lemma node_simD:
  "node_sim Rv fA fB rest ra rb \<Longrightarrow> ra = Returns (Some V, a') \<Longrightarrow>
     \<exists>V' b'. rb = Returns (Some V', b') \<and> rel_ExprAST Rv V V' \<and> sim Rv fA fB rest a' b'"
  by (simp add: node_sim_def)

lemma binop_scan_cong:
  "CurTok s' = CurTok s \<Longrightarrow> BinopPrecedenceOperators s' = BinopPrecedenceOperators s \<Longrightarrow>
   BinopPrecedencePrecedence s' = BinopPrecedencePrecedence s \<Longrightarrow> binop_scan s' i k = binop_scan s i k"
  by (induction k arbitrary: i) simp_all

lemma GetTokPrecedence_cong:
  "CurTok s' = CurTok s \<Longrightarrow> BinopPrecedenceOperators s' = BinopPrecedenceOperators s \<Longrightarrow>
   BinopPrecedencePrecedence s' = BinopPrecedencePrecedence s \<Longrightarrow> GetTokPrecedence s' = GetTokPrecedence s"
  by (simp add: GetTokPrecedence_def binop_scan_cong [of s' s])

lemma sim_GetTokPrecedence:
  assumes "sim Rv fA fB rest a b"
  shows "GetTokPrecedence b = GetTokPrecedence a"
proof (cases "CurTok a = tok_eof")
  case True
  then have "GetTokPrecedence a = - 1"
    by (simp add: GetTokPrecedence_def tok_eof_def isascii_def)
  moreover from True assms have "GetTokPrecedence b = GetTokPrecedence (b\<lparr>CurTok := 41\<rparr>)"
    by (intro GetTokPrecedence_cong) (simp_all add: sim_def)
  moreover from assms have "GetTokPrecedence (b\<lparr>CurTok := 41\<rparr>) = - 1"
    by (simp add: sim_def same_table_def)
  ultimately show ?thesis by simp
next
  case False
  with assms show ?thesis
    by (intro GetTokPrecedence_cong) (simp_all add: sim_def same_table_def)
qed

lemma GetTokPrecedence_eof: "CurTok a = tok_eof \<Longrightarrow> GetTokPrecedence a = - 1"
  by (simp add: GetTokPrecedence_def tok_eof_def isascii_def)

lemma getNextToken_sim_lexer:
  assumes bc: "before_close rest a b" and names: "IdentifierStr b = IdentifierStr a"
    and vals: "same_values Rv fA fB a b" and tab: "same_table a b"
    and ret: "getNextToken fA a = Returns (t, a')"
  shows "\<exists>t' b'. getNextToken fB b = Returns (t', b') \<and> sim Rv fA fB rest a' b'"
proof -
  from ret obtain a1 where ga: "gettok fA a = Returns (t, a1)" and a': "a' = a1\<lparr>CurTok := t\<rparr>"
    by (auto simp: getNextToken_def and_then_Returns_iff)
  let ?t' = "if t = tok_eof then 41 else t"
  from gettok_sim [OF bc names vals ga] obtain b1 where gb: "gettok fB b = Returns (?t', b1)"
    and names1: "IdentifierStr b1 = IdentifierStr a1" and vals1: "same_values Rv fA fB a1 b1"
    and pos: "if t = tok_eof then LastChar b1 = (case rest of [] \<Rightarrow> EOF | c # cs \<Rightarrow> of_char c) \<and> input b1 = tl rest
         else before_close rest a1 b1"
    by blast
  let ?b' = "b1\<lparr>CurTok := ?t'\<rparr>"
  from gb have "getNextToken fB b = Returns (?t', ?b')"
    by (simp add: getNextToken_def)
  moreover have "sim Rv fA fB rest a' ?b'"
  proof -
    from gettok_shape [OF ga] obtain i l n v c
      where a1: "a1 = a\<lparr>input := i, LastChar := l, IdentifierStr := n, NumVal := v, NumStr_calls := c\<rparr>"
      by blast
    from gettok_shape [OF gb] obtain i' l' n' v' c'
      where b1: "b1 = b\<lparr>input := i', LastChar := l', IdentifierStr := n', NumVal := v', NumStr_calls := c'\<rparr>"
      by blast
    have "GetTokPrecedence (?b'\<lparr>CurTok := 41\<rparr>) = GetTokPrecedence (b\<lparr>CurTok := 41\<rparr>)"
      using b1 by (intro GetTokPrecedence_cong) simp_all
    with tab a1 b1 a' have "same_table a' ?b'"
      by (simp add: same_table_def)
    with names1 vals1 pos a' show ?thesis
      by (simp add: sim_def)
  qed
  ultimately show ?thesis by blast
qed

lemma getNextToken_sim:
  assumes "sim Rv fA fB rest a b" "CurTok a \<noteq> tok_eof" "getNextToken fA a = Returns (t, a')"
  shows "\<exists>t' b'. getNextToken fB b = Returns (t', b') \<and> sim Rv fA fB rest a' b'"
  using assms by (intro getNextToken_sim_lexer [where a = a and t = t]) (simp_all add: sim_def)

lemma no_node_at_eof:
  assumes "CurTok s = tok_eof"
  shows "ParsePrimary f n s \<noteq> Returns (Some V, s')"
    and "ParseExpression f n s \<noteq> Returns (Some V, s')"
    and "ParseCallArgs f n Callee Args NumArgs s \<noteq> Returns (Some V, s')"
proof -
  have primary: "ParsePrimary f n s \<noteq> Returns (Some V, s')" for n V s'
    using assms
    by (cases n) (simp_all add: Error_def tok_eof_def tok_identifier_def tok_number_def)
  have expr: "ParseExpression f n s \<noteq> Returns (Some V, s')" for n V s'
  proof (cases n)
    case 0
    then show ?thesis by simp
  next
    case (Suc m)
    with primary [of m] show ?thesis
      by (auto simp: and_then_Returns_iff split: option.splits)
  qed
  show "ParsePrimary f n s \<noteq> Returns (Some V, s')"
    by (rule primary)
  show "ParseExpression f n s \<noteq> Returns (Some V, s')"
    by (rule expr)
  show "ParseCallArgs f n Callee Args NumArgs s \<noteq> Returns (Some V, s')"
  proof (cases n)
    case 0
    then show ?thesis by simp
  next
    case (Suc m)
    with expr [of m] show ?thesis
      by (auto simp: and_then_Returns_iff split: option.splits)
  qed
qed

lemma ParseCallArgs_ends:
  "ParseCallArgs f n Callee Args NumArgs s = Returns (Some V, s') \<Longrightarrow> CurTok s' = 41"
proof (induction n arbitrary: Args NumArgs s)
  case 0
  then show ?case by simp
next
  case (Suc n)
  from Suc.prems obtain Arg s1 where e: "ParseExpression f n s = Returns (Some Arg, s1)"
    and b: "0 \<le> NumArgs \<and> NumArgs < 64"
    and k: "(if CurTok s1 = 41 then Returns (Some (CallExprAST Callee (Args @ [Arg]) (NumArgs + 1)), s1)
             else if CurTok s1 \<noteq> 44 then Returns (Error ''Expected ')' or ',' in argument list'' s1)
             else and_then (getNextToken f s1) (\<lambda>(_, s2).
                    ParseCallArgs f n Callee (Args @ [Arg]) (NumArgs + 1) s2)) = Returns (Some V, s')"
    by (auto simp: and_then_Returns_iff Let_def split: option.splits if_splits)
  show ?case
  proof (cases "CurTok s1 = 41")
    case True
    with k show ?thesis by simp
  next
    case False
    with k obtain t s2 where "ParseCallArgs f n Callee (Args @ [Arg]) (NumArgs + 1) s2 = Returns (Some V, s')"
      by (auto simp: and_then_Returns_iff Error_def split: if_splits)
    then show ?thesis by (rule Suc.IH)
  qed
qed

lemma parser_sim:
  "(\<forall>a b. sim Rv fA fB rest a b \<longrightarrow>
      node_sim Rv fA fB rest (ParsePrimary fA n a) (ParsePrimary fB n b)) \<and>
   (\<forall>a b. sim Rv fA fB rest a b \<longrightarrow> CurTok a \<noteq> tok_eof \<longrightarrow>
      node_sim Rv fA fB rest (ParseParenExpr fA n a) (ParseParenExpr fB n b)) \<and>
   (\<forall>a b. sim Rv fA fB rest a b \<longrightarrow> CurTok a \<noteq> tok_eof \<longrightarrow>
      node_sim Rv fA fB rest (ParseIdentifierExpr fA n a) (ParseIdentifierExpr fB n b)) \<and>
   (\<forall>a b Callee Args Args' NumArgs. sim Rv fA fB rest a b \<longrightarrow> list_all2 (rel_ExprAST Rv) Args Args' \<longrightarrow>
      node_sim Rv fA fB rest (ParseCallArgs fA n Callee Args NumArgs a) (ParseCallArgs fB n Callee Args' NumArgs b)) \<and>
   (\<forall>a b ExprPrec LHS LHS'. sim Rv fA fB rest a b \<longrightarrow> 0 \<le> ExprPrec \<longrightarrow> rel_ExprAST Rv LHS LHS' \<longrightarrow>
      node_sim Rv fA fB rest (ParseBinOpRHS fA n ExprPrec LHS a) (ParseBinOpRHS fB n ExprPrec LHS' b)) \<and>
   (\<forall>a b. sim Rv fA fB rest a b \<longrightarrow>
      node_sim Rv fA fB rest (ParseExpression fA n a) (ParseExpression fB n b))"
proof (induction n)
  case 0
  show ?case by (simp add: node_sim_def)
next
  case (Suc n)
  then have ih_primary: "\<And>a b V a'. sim Rv fA fB rest a b \<Longrightarrow> ParsePrimary fA n a = Returns (Some V, a') \<Longrightarrow>
        \<exists>V' b'. ParsePrimary fB n b = Returns (Some V', b') \<and> rel_ExprAST Rv V V' \<and> sim Rv fA fB rest a' b'"
    and ih_paren: "\<And>a b V a'. sim Rv fA fB rest a b \<Longrightarrow> CurTok a \<noteq> tok_eof \<Longrightarrow>
        ParseParenExpr fA n a = Returns (Some V, a') \<Longrightarrow>
        \<exists>V' b'. ParseParenExpr fB n b = Returns (Some V', b') \<and> rel_ExprAST Rv V V' \<and> sim Rv fA fB rest a' b'"
    and ih_ident: "\<And>a b V a'. sim Rv fA fB rest a b \<Longrightarrow> CurTok a \<noteq> tok_eof \<Longrightarrow>
        ParseIdentifierExpr fA n a = Returns (Some V, a') \<Longrightarrow>
        \<exists>V' b'. ParseIdentifierExpr fB n b = Returns (Some V', b') \<and> rel_ExprAST Rv V V' \<and> sim Rv fA fB rest a' b'"
    and ih_args: "\<And>a b Callee Args Args' NumArgs V a'. sim Rv fA fB rest a b \<Longrightarrow>
        list_all2 (rel_ExprAST Rv) Args Args' \<Longrightarrow>
        ParseCallArgs fA n Callee Args NumArgs a = Returns (Some V, a') \<Longrightarrow>
        \<exists>V' b'. ParseCallArgs fB n Callee Args' NumArgs b = Returns (Some V', b') \<and> rel_ExprAST Rv V V' \<and>
          sim Rv fA fB rest a' b'"
    and ih_binop: "\<And>a b ExprPrec LHS LHS' V a'. sim Rv fA fB rest a b \<Longrightarrow> 0 \<le> ExprPrec \<Longrightarrow>
        rel_ExprAST Rv LHS LHS' \<Longrightarrow>
        ParseBinOpRHS fA n ExprPrec LHS a = Returns (Some V, a') \<Longrightarrow>
        \<exists>V' b'. ParseBinOpRHS fB n ExprPrec LHS' b = Returns (Some V', b') \<and> rel_ExprAST Rv V V' \<and>
          sim Rv fA fB rest a' b'"
    and ih_expr: "\<And>a b V a'. sim Rv fA fB rest a b \<Longrightarrow> ParseExpression fA n a = Returns (Some V, a') \<Longrightarrow>
        \<exists>V' b'. ParseExpression fB n b = Returns (Some V', b') \<and> rel_ExprAST Rv V V' \<and> sim Rv fA fB rest a' b'"
    by (simp_all add: node_sim_def)
  have 1: "node_sim Rv fA fB rest (ParsePrimary fA (Suc n) a) (ParsePrimary fB (Suc n) b)"
    if s: "sim Rv fA fB rest a b" for a b
  proof (rule node_simI)
    fix V a'
    assume r: "ParsePrimary fA (Suc n) a = Returns (Some V, a')"
    then consider (ident) "CurTok a = tok_identifier" | (num) "CurTok a = tok_number" | (paren) "CurTok a = 40"
      by (auto simp: Error_def split: if_splits)
    then show "\<exists>V' b'. ParsePrimary fB (Suc n) b = Returns (Some V', b') \<and> rel_ExprAST Rv V V' \<and>
        sim Rv fA fB rest a' b'"
    proof cases
      case ident
      then have ne: "CurTok a \<noteq> tok_eof"
        by (simp add: tok_eof_def tok_identifier_def)
      with s ident have cb: "CurTok b = tok_identifier"
        by (simp add: sim_def)
      from r ident have "ParseIdentifierExpr fA n a = Returns (Some V, a')"
        by simp
      from ih_ident [OF s ne this] cb show ?thesis
        by simp
    next
      case num
      then have ne: "CurTok a \<noteq> tok_eof"
        by (simp add: tok_eof_def tok_number_def)
      with s num have cb: "CurTok b = tok_number"
        by (simp add: sim_def)
      from r num obtain t where g: "getNextToken fA a = Returns (t, a')" and V: "V = NumberExprAST (NumVal a)"
        by (auto simp: ParseNumberExpr_def and_then_Returns_iff tok_number_def tok_identifier_def)
      from getNextToken_sim [OF s ne g] obtain t' b' where gb: "getNextToken fB b = Returns (t', b')"
        and s': "sim Rv fA fB rest a' b'"
        by blast
      from cb gb have "ParsePrimary fB (Suc n) b = Returns (Some (NumberExprAST (NumVal b)), b')"
        by (simp add: ParseNumberExpr_def tok_number_def tok_identifier_def)
      moreover from s have "Rv (NumVal a) (NumVal b)"
        by (simp add: sim_def same_values_def)
      ultimately show ?thesis
        using V s' by simp
    next
      case paren
      then have ne: "CurTok a \<noteq> tok_eof"
        by (simp add: tok_eof_def)
      with s paren have cb: "CurTok b = 40"
        by (simp add: sim_def)
      from r paren have "ParseParenExpr fA n a = Returns (Some V, a')"
        by (simp add: tok_number_def tok_identifier_def)
      from ih_paren [OF s ne this] cb show ?thesis
        by (simp add: tok_number_def tok_identifier_def)
    qed
  qed
  have 2: "node_sim Rv fA fB rest (ParseParenExpr fA (Suc n) a) (ParseParenExpr fB (Suc n) b)"
    if s: "sim Rv fA fB rest a b" and ne: "CurTok a \<noteq> tok_eof" for a b
  proof (rule node_simI)
    fix V a'
    assume r: "ParseParenExpr fA (Suc n) a = Returns (Some V, a')"
    then obtain t a1 a2 t3 where g: "getNextToken fA a = Returns (t, a1)"
      and e: "ParseExpression fA n a1 = Returns (Some V, a2)"
      and c: "CurTok a2 = 41" and g3: "getNextToken fA a2 = Returns (t3, a')"
      using ParseParenExpr_Some [OF r] by blast
    from getNextToken_sim [OF s ne g] obtain t' b1 where gb: "getNextToken fB b = Returns (t', b1)"
      and s1: "sim Rv fA fB rest a1 b1"
      by blast
    from ih_expr [OF s1 e] obtain V' b2 where eb: "ParseExpression fB n b1 = Returns (Some V', b2)"
      and rel: "rel_ExprAST Rv V V'" and s2: "sim Rv fA fB rest a2 b2"
      by blast
    from c have ne2: "CurTok a2 \<noteq> tok_eof"
      by (simp add: tok_eof_def)
    with s2 c have cb: "CurTok b2 = 41"
      by (simp add: sim_def)
    from getNextToken_sim [OF s2 ne2 g3] obtain t3' b3 where gb3: "getNextToken fB b2 = Returns (t3', b3)"
      and s3: "sim Rv fA fB rest a' b3"
      by blast
    from gb eb cb gb3 have "ParseParenExpr fB (Suc n) b = Returns (Some V', b3)"
      by simp
    with rel s3 show "\<exists>V' b'. ParseParenExpr fB (Suc n) b = Returns (Some V', b') \<and> rel_ExprAST Rv V V' \<and>
        sim Rv fA fB rest a' b'"
      by blast
  qed
  have 4: "node_sim Rv fA fB rest (ParseCallArgs fA (Suc n) Callee Args NumArgs a)
      (ParseCallArgs fB (Suc n) Callee Args' NumArgs b)"
    if s: "sim Rv fA fB rest a b" and l: "list_all2 (rel_ExprAST Rv) Args Args'" for a b Callee Args Args' NumArgs
  proof (rule node_simI)
    fix V a'
    assume r: "ParseCallArgs fA (Suc n) Callee Args NumArgs a = Returns (Some V, a')"
    then obtain Arg a1 where e: "ParseExpression fA n a = Returns (Some Arg, a1)"
      and b: "0 \<le> NumArgs \<and> NumArgs < 64"
      and k: "(if CurTok a1 = 41 then Returns (Some (CallExprAST Callee (Args @ [Arg]) (NumArgs + 1)), a1)
             else if CurTok a1 \<noteq> 44 then Returns (Error ''Expected ')' or ',' in argument list'' a1)
             else and_then (getNextToken fA a1) (\<lambda>(_, a2).
                    ParseCallArgs fA n Callee (Args @ [Arg]) (NumArgs + 1) a2)) = Returns (Some V, a')"
      by (auto simp: and_then_Returns_iff Let_def split: option.splits if_splits)
    from ih_expr [OF s e] obtain Arg' b1 where eb: "ParseExpression fB n b = Returns (Some Arg', b1)"
      and rel: "rel_ExprAST Rv Arg Arg'" and s1: "sim Rv fA fB rest a1 b1"
      by blast
    from l rel have l': "list_all2 (rel_ExprAST Rv) (Args @ [Arg]) (Args' @ [Arg'])"
      by (simp add: list_all2_appendI)
    show "\<exists>V' b'. ParseCallArgs fB (Suc n) Callee Args' NumArgs b = Returns (Some V', b') \<and> rel_ExprAST Rv V V' \<and>
        sim Rv fA fB rest a' b'"
    proof (cases "CurTok a1 = 41")
      case True
      then have "CurTok a1 \<noteq> tok_eof"
        by (simp add: tok_eof_def)
      with s1 True have "CurTok b1 = 41"
        by (simp add: sim_def)
      with eb b have "ParseCallArgs fB (Suc n) Callee Args' NumArgs b =
          Returns (Some (CallExprAST Callee (Args' @ [Arg']) (NumArgs + 1)), b1)"
        by (simp add: Let_def)
      moreover from True k have "V = CallExprAST Callee (Args @ [Arg]) (NumArgs + 1)" "a' = a1"
        by simp_all
      ultimately show ?thesis
        using l' s1 by simp
    next
      case False
      with k have comma: "CurTok a1 = 44"
        by (auto simp: Error_def split: if_splits)
      then have ne1: "CurTok a1 \<noteq> tok_eof"
        by (simp add: tok_eof_def)
      with s1 comma have cb: "CurTok b1 = 44"
        by (simp add: sim_def)
      from k comma obtain t a2 where g: "getNextToken fA a1 = Returns (t, a2)"
        and rec: "ParseCallArgs fA n Callee (Args @ [Arg]) (NumArgs + 1) a2 = Returns (Some V, a')"
        by (auto simp: and_then_Returns_iff)
      from getNextToken_sim [OF s1 ne1 g] obtain t' b2 where gb: "getNextToken fB b1 = Returns (t', b2)"
        and s2: "sim Rv fA fB rest a2 b2"
        by blast
      from ih_args [OF s2 l' rec] obtain V' b' where
        recb: "ParseCallArgs fB n Callee (Args' @ [Arg']) (NumArgs + 1) b2 = Returns (Some V', b')"
        and relV: "rel_ExprAST Rv V V'" and s': "sim Rv fA fB rest a' b'"
        by blast
      from eb b cb gb recb have "ParseCallArgs fB (Suc n) Callee Args' NumArgs b = Returns (Some V', b')"
        by (simp add: Let_def)
      with relV s' show ?thesis by blast
    qed
  qed
  have 3: "node_sim Rv fA fB rest (ParseIdentifierExpr fA (Suc n) a) (ParseIdentifierExpr fB (Suc n) b)"
    if s: "sim Rv fA fB rest a b" and ne: "CurTok a \<noteq> tok_eof" for a b
  proof (rule node_simI)
    fix V a'
    assume r: "ParseIdentifierExpr fA (Suc n) a = Returns (Some V, a')"
    then obtain IdName t a1 where name: "c_string (IdentifierStr a) = Some IdName"
      and g: "getNextToken fA a = Returns (t, a1)"
      and k: "(if CurTok a1 \<noteq> 40 then Returns (Some (VariableExprAST IdName), a1)
            else
              and_then (getNextToken fA a1) (\<lambda>(_, a2).
              and_then
                (if CurTok a2 \<noteq> 41 then ParseCallArgs fA n IdName [] 0 a2
                 else Returns (Some (CallExprAST IdName [] 0), a2))
                (\<lambda>(Result, a3).
                   case Result of
                     None \<Rightarrow> Returns (None, a3)
                   | Some Result' \<Rightarrow>
                       and_then (getNextToken fA a3) (\<lambda>(_, a4). Returns (Some Result', a4))))) = Returns (Some V, a')"
      by (auto simp: and_then_Returns_iff split: option.splits)
    from s name have nameb: "c_string (IdentifierStr b) = Some IdName"
      by (simp add: sim_def)
    from getNextToken_sim [OF s ne g] obtain t' b1 where gb: "getNextToken fB b = Returns (t', b1)"
      and s1: "sim Rv fA fB rest a1 b1"
      by blast
    show "\<exists>V' b'. ParseIdentifierExpr fB (Suc n) b = Returns (Some V', b') \<and> rel_ExprAST Rv V V' \<and>
        sim Rv fA fB rest a' b'"
    proof (cases "CurTok a1 \<noteq> 40")
      case True
      with s1 have "CurTok b1 \<noteq> 40"
        by (auto simp: sim_def split: if_splits)
      with nameb gb have "ParseIdentifierExpr fB (Suc n) b = Returns (Some (VariableExprAST IdName), b1)"
        by simp
      moreover from True k have "V = VariableExprAST IdName" "a' = a1"
        by simp_all
      ultimately show ?thesis
        using s1 by simp
    next
      case False
      then have lpar: "CurTok a1 = 40" by simp
      then have ne1: "CurTok a1 \<noteq> tok_eof"
        by (simp add: tok_eof_def)
      with s1 lpar have cb1: "CurTok b1 = 40"
        by (simp add: sim_def)
      from k lpar obtain t2 a2 Result a3 t4 where g2: "getNextToken fA a1 = Returns (t2, a2)"
        and c: "(if CurTok a2 \<noteq> 41 then ParseCallArgs fA n IdName [] 0 a2
                 else Returns (Some (CallExprAST IdName [] 0), a2)) = Returns (Some Result, a3)"
        and g4: "getNextToken fA a3 = Returns (t4, a')" and V: "V = Result"
        by (auto simp: and_then_Returns_iff split: option.splits)
      from getNextToken_sim [OF s1 ne1 g2] obtain t2' b2 where gb2: "getNextToken fB b1 = Returns (t2', b2)"
        and s2: "sim Rv fA fB rest a2 b2"
        by blast
      have "\<exists>Result' b3. (if CurTok b2 \<noteq> 41 then ParseCallArgs fB n IdName [] 0 b2
                 else Returns (Some (CallExprAST IdName [] 0), b2)) = Returns (Some Result', b3) \<and>
              rel_ExprAST Rv Result Result' \<and> sim Rv fA fB rest a3 b3 \<and> CurTok a3 = 41"
      proof (cases "CurTok a2 \<noteq> 41")
        case True
        with c have ca: "ParseCallArgs fA n IdName [] 0 a2 = Returns (Some Result, a3)"
          by simp
        then have ne2: "CurTok a2 \<noteq> tok_eof"
          using no_node_at_eof(3) [of a2 fA n IdName "[]" 0 Result a3] by blast
        with s2 True have "CurTok b2 \<noteq> 41"
          by (simp add: sim_def)
        moreover from ih_args [OF s2 _ ca, of "[]"] obtain Result' b3
          where "ParseCallArgs fB n IdName [] 0 b2 = Returns (Some Result', b3)"
            "rel_ExprAST Rv Result Result'" "sim Rv fA fB rest a3 b3"
          by auto
        moreover have "CurTok a3 = 41"
          using ca by (rule ParseCallArgs_ends)
        ultimately show ?thesis by simp
      next
        case False
        then have close: "CurTok a2 = 41" by simp
        then have "CurTok a2 \<noteq> tok_eof"
          by (simp add: tok_eof_def)
        with s2 close have "CurTok b2 = 41"
          by (simp add: sim_def)
        moreover from c close have "Result = CallExprAST IdName [] 0" "a3 = a2"
          by simp_all
        ultimately show ?thesis
          using s2 close by simp
      qed
      then obtain Result' b3 where cb: "(if CurTok b2 \<noteq> 41 then ParseCallArgs fB n IdName [] 0 b2
                 else Returns (Some (CallExprAST IdName [] 0), b2)) = Returns (Some Result', b3)"
        and rel: "rel_ExprAST Rv Result Result'" and s3: "sim Rv fA fB rest a3 b3" and c3: "CurTok a3 = 41"
        by blast
      from c3 have ne3: "CurTok a3 \<noteq> tok_eof"
        by (simp add: tok_eof_def)
      from getNextToken_sim [OF s3 ne3 g4] obtain t4' b4 where gb4: "getNextToken fB b3 = Returns (t4', b4)"
        and s4: "sim Rv fA fB rest a' b4"
        by blast
      from nameb gb cb1 gb2 cb gb4 have "ParseIdentifierExpr fB (Suc n) b = Returns (Some Result', b4)"
        by simp
      with rel s4 V show ?thesis by blast
    qed
  qed
  have 5: "node_sim Rv fA fB rest (ParseBinOpRHS fA (Suc n) ExprPrec LHS a) (ParseBinOpRHS fB (Suc n) ExprPrec LHS' b)"
    if s: "sim Rv fA fB rest a b" and pos: "0 \<le> ExprPrec" and l: "rel_ExprAST Rv LHS LHS'"
    for a b ExprPrec LHS LHS'
  proof (rule node_simI)
    fix V a'
    assume r: "ParseBinOpRHS fA (Suc n) ExprPrec LHS a = Returns (Some V, a')"
    have prec: "GetTokPrecedence b = GetTokPrecedence a"
      using s by (rule sim_GetTokPrecedence)
    show "\<exists>V' b'. ParseBinOpRHS fB (Suc n) ExprPrec LHS' b = Returns (Some V', b') \<and> rel_ExprAST Rv V V' \<and>
        sim Rv fA fB rest a' b'"
    proof (cases "GetTokPrecedence a < ExprPrec")
      case True
      with r have "V = LHS" "a' = a"
        by simp_all
      moreover from True prec have "ParseBinOpRHS fB (Suc n) ExprPrec LHS' b = Returns (Some LHS', b)"
        by simp
      ultimately show ?thesis
        using s l by simp
    next
      case False
      with pos have ne: "CurTok a \<noteq> tok_eof"
        using GetTokPrecedence_eof [of a] by auto
      with s have cb: "CurTok b = CurTok a"
        by (simp add: sim_def)
      from False r obtain t a1 RHS a2 RHS2 a3 where g: "getNextToken fA a = Returns (t, a1)"
        and p: "ParsePrimary fA n a1 = Returns (Some RHS, a2)"
        and c: "(if GetTokPrecedence a < GetTokPrecedence a2
            then ParseBinOpRHS fA n (GetTokPrecedence a + 1) RHS a2
            else Returns (Some RHS, a2)) = Returns (Some RHS2, a3)"
        and rec: "ParseBinOpRHS fA n ExprPrec (BinaryExprAST (char_of (CurTok a)) LHS RHS2) a3 = Returns (Some V, a')"
        by (auto simp: and_then_Returns_iff Let_def split: option.splits)
      from getNextToken_sim [OF s ne g] obtain t' b1 where gb: "getNextToken fB b = Returns (t', b1)"
        and s1: "sim Rv fA fB rest a1 b1"
        by blast
      from ih_primary [OF s1 p] obtain RHS' b2 where pb: "ParsePrimary fB n b1 = Returns (Some RHS', b2)"
        and relR: "rel_ExprAST Rv RHS RHS'" and s2: "sim Rv fA fB rest a2 b2"
        by blast
      have prec2: "GetTokPrecedence b2 = GetTokPrecedence a2"
        using s2 by (rule sim_GetTokPrecedence)
      have "\<exists>RHS2' b3. (if GetTokPrecedence b < GetTokPrecedence b2
            then ParseBinOpRHS fB n (GetTokPrecedence b + 1) RHS' b2
            else Returns (Some RHS', b2)) = Returns (Some RHS2', b3) \<and>
            rel_ExprAST Rv RHS2 RHS2' \<and> sim Rv fA fB rest a3 b3"
      proof (cases "GetTokPrecedence a < GetTokPrecedence a2")
        case True
        with c have "ParseBinOpRHS fA n (GetTokPrecedence a + 1) RHS a2 = Returns (Some RHS2, a3)"
          by simp
        moreover from False pos have "0 \<le> GetTokPrecedence a + 1"
          by simp
        ultimately obtain RHS2' b3 where "ParseBinOpRHS fB n (GetTokPrecedence a + 1) RHS' b2 = Returns (Some RHS2', b3)"
          "rel_ExprAST Rv RHS2 RHS2'" "sim Rv fA fB rest a3 b3"
          using ih_binop [OF s2 _ relR] by blast
        with True prec prec2 show ?thesis by simp
      next
        case lower: False
        with c have "RHS2 = RHS" "a3 = a2"
          by simp_all
        with lower prec prec2 relR s2 show ?thesis by simp
      qed
      then obtain RHS2' b3 where cb2: "(if GetTokPrecedence b < GetTokPrecedence b2
            then ParseBinOpRHS fB n (GetTokPrecedence b + 1) RHS' b2
            else Returns (Some RHS', b2)) = Returns (Some RHS2', b3)"
        and rel2: "rel_ExprAST Rv RHS2 RHS2'" and s3: "sim Rv fA fB rest a3 b3"
        by blast
      from l rel2 have "rel_ExprAST Rv (BinaryExprAST (char_of (CurTok a)) LHS RHS2)
          (BinaryExprAST (char_of (CurTok a)) LHS' RHS2')"
        by simp
      from ih_binop [OF s3 pos this rec] obtain V' b' where
        recb: "ParseBinOpRHS fB n ExprPrec (BinaryExprAST (char_of (CurTok a)) LHS' RHS2') b3 = Returns (Some V', b')"
        and relV: "rel_ExprAST Rv V V'" and s': "sim Rv fA fB rest a' b'"
        by blast
      from False prec cb gb pb cb2 recb have "ParseBinOpRHS fB (Suc n) ExprPrec LHS' b = Returns (Some V', b')"
        by (auto simp: Let_def split: if_splits)
      with relV s' show ?thesis by blast
    qed
  qed
  have 6: "node_sim Rv fA fB rest (ParseExpression fA (Suc n) a) (ParseExpression fB (Suc n) b)"
    if s: "sim Rv fA fB rest a b" for a b
  proof (rule node_simI)
    fix V a'
    assume r: "ParseExpression fA (Suc n) a = Returns (Some V, a')"
    then obtain LHS a1 where p: "ParsePrimary fA n a = Returns (Some LHS, a1)"
      and k: "ParseBinOpRHS fA n 0 LHS a1 = Returns (Some V, a')"
      by (auto simp: and_then_Returns_iff split: option.splits)
    from ih_primary [OF s p] obtain LHS' b1 where pb: "ParsePrimary fB n b = Returns (Some LHS', b1)"
      and rel: "rel_ExprAST Rv LHS LHS'" and s1: "sim Rv fA fB rest a1 b1"
      by blast
    from ih_binop [OF s1 _ rel k] obtain V' b' where "ParseBinOpRHS fB n 0 LHS' b1 = Returns (Some V', b')"
      "rel_ExprAST Rv V V'" "sim Rv fA fB rest a' b'"
      by auto
    with pb show "\<exists>V' b'. ParseExpression fB (Suc n) b = Returns (Some V', b') \<and> rel_ExprAST Rv V V' \<and>
        sim Rv fA fB rest a' b'"
      by simp
  qed
  from 1 2 3 4 5 6 show ?case by blast
qed

lemma rel_tree_of: "rel_ExprAST (\<lambda>_ _. True) V V' \<Longrightarrow> tree_of V' = tree_of V"
proof -
  assume "rel_ExprAST (\<lambda>_ _. True) V V'"
  then have "rel_ExprAST (=) (tree_of V) (tree_of V')"
    by (simp add: tree_of_def ExprAST.rel_map)
  then show ?thesis
    by (simp add: ExprAST.rel_eq)
qed

lemma read_LastChar_LastChar [simp]: "read_LastChar (s\<lparr>LastChar := x\<rparr>) = read_LastChar s"
  by (simp add: read_LastChar_def getchar_def split: list.splits)

lemma getNextToken_at_end:
  assumes "LastChar s = EOF"
  shows "getNextToken f s = Returns (tok_eof, s\<lparr>CurTok := tok_eof\<rparr>)"
proof -
  from assms have "skip_space s = s"
    by (intro skip_space_stop) (simp add: isspace_def EOF_def)
  with assms have "gettok f s = Returns (tok_eof, s)"
    using gettok.simps [of f s] by (simp add: Let_def isalpha_def isdigit_def EOF_def)
  then show ?thesis
    by (simp add: getNextToken_def)
qed

lemma ParseExpression_sim:
  assumes "sim Rv fA fB rest a b" "ParseExpression fA n a = Returns (Some V, a')"
  shows "\<exists>V' b'. ParseExpression fB n b = Returns (Some V', b') \<and> rel_ExprAST Rv V V' \<and> sim Rv fA fB rest a' b'"
proof -
  from parser_sim [of Rv fA fB rest n]
  have "\<forall>a b. sim Rv fA fB rest a b \<longrightarrow>
      node_sim Rv fA fB rest (ParseExpression fA n a) (ParseExpression fB n b)"
    by (elim conjE)
  with assms(1) have "node_sim Rv fA fB rest (ParseExpression fA n a) (ParseExpression fB n b)"
    by simp
  then show ?thesis
    using assms(2) by (rule node_simD)
qed

lemma paren_sim:
  assumes closed: "comments_closed e"
    and startA: "main_start strtod (initial zero junk e) = Returns a"
    and parse: "ParseExpression strtod n a = Returns (Some V, a')"
    and stop: "CurTok a' = tok_eof"
    and zero: "Rv zero zero"
    and vals: "\<And>k t. Rv (strtod (c_cons (junk k 0) t)) (strtod (c_cons (junk' k 0) t))"
  shows "\<exists>b V' b'. main_start strtod (initial zero junk' (CHR ''('' # e @ '')'')) = Returns b \<and> CurTok b = 40 \<and>
      ParseParenExpr strtod (Suc n) b = Returns (Some V', b') \<and> CurTok b' = tok_eof \<and> rel_ExprAST Rv V V'"
proof -
  define ai where "ai = (install_binops (initial zero junk e))
      \<lparr>stderr := stderr (install_binops (initial zero junk e)) @ ''ready> ''\<rparr>"
  define bi where "bi = (install_binops (initial zero junk' (CHR ''('' # e @ '')'')))
      \<lparr>stderr := stderr (install_binops (initial zero junk' (CHR ''('' # e @ '')''))) @ ''ready> ''\<rparr>"
  define bj where "bj = bi\<lparr>input := e @ '')'', LastChar := 40\<rparr>"
  have ai: "LastChar ai = 32" "input ai = e" "IdentifierStr ai = (\<lambda>_. CHR 0x00)" "NumVal ai = zero"
      "NumStr_uninit ai = junk" "NumStr_calls ai = 0"
    by (simp_all add: ai_def install_binops_def initial_def)
  have bi: "LastChar bi = 32" "input bi = CHR ''('' # e @ '')''" "IdentifierStr bi = (\<lambda>_. CHR 0x00)" "NumVal bi = zero"
      "NumStr_uninit bi = junk'" "NumStr_calls bi = 0"
    by (simp_all add: bi_def install_binops_def initial_def)
  have tables: "BinopPrecedenceOperators bi = BinopPrecedenceOperators ai"
      "BinopPrecedencePrecedence bi = BinopPrecedencePrecedence ai"
    by (simp_all add: ai_def bi_def install_binops_def initial_def)
  have closes: "GetTokPrecedence (bi\<lparr>CurTok := 41\<rparr>) = - 1"
    by (simp add: bi_def GetTokPrecedence_def binop_scan_numeral NUM_BINOPS_def install_binops_def isascii_def
        initial_def)
  \<comment> \<open>the run on \<open>e\<close> alone\<close>
  from startA obtain t where ga: "getNextToken strtod ai = Returns (t, a)"
    by (auto simp: main_start_def Let_def ai_def and_then_Returns_iff)
  have "skip_space ai = skip_space (read_LastChar ai)"
    using ai by (intro skip_space_step) (simp add: isspace_def)
  then have "gettok strtod ai = gettok strtod (read_LastChar ai)"
    by (rule gettok_skip_space)
  with ga have ga': "getNextToken strtod (read_LastChar ai) = Returns (t, a)"
    by (simp add: getNextToken_def)
  \<comment> \<open>the run on \<open>(e)\<close>, up to the token \<open>(\<close>\<close>
  have rb: "read_LastChar bi = bj"
    using bi by (simp add: bj_def read_LastChar_Cons)
  have "skip_space bi = skip_space (read_LastChar bi)"
    using bi by (intro skip_space_step) (simp add: isspace_def)
  also have "skip_space (read_LastChar bi) = bj"
    unfolding rb by (intro skip_space_stop) (simp add: bj_def isspace_def)
  finally have sk: "skip_space bi = bj" .
  have "gettok strtod bi = Returns (40, read_LastChar bj)"
    using gettok.simps [of strtod bi] sk
    by (simp add: Let_def bj_def isalpha_def isdigit_def EOF_def)
  then have gb: "getNextToken strtod bi = Returns (40, (read_LastChar bj)\<lparr>CurTok := 40\<rparr>)"
    by (simp add: getNextToken_def)
  define b where "b = (read_LastChar bj)\<lparr>CurTok := 40\<rparr>"
  from gb have startB: "main_start strtod (initial zero junk' (CHR ''('' # e @ '')'')) = Returns b"
    by (simp add: main_start_def Let_def bi_def b_def)
  have cb: "CurTok b = 40"
    by (simp add: b_def)
  \<comment> \<open>the two runs, from the first character of \<open>e\<close> on\<close>
  obtain ia la where ra: "read_LastChar ai = ai\<lparr>input := ia, LastChar := la\<rparr>"
    using read_LastChar_shape [of ai] by blast
  obtain ib lb where rbj: "read_LastChar bj = bj\<lparr>input := ib, LastChar := lb\<rparr>"
    using read_LastChar_shape [of bj] by blast
  have "before_close [] ai (bj\<lparr>LastChar := 32\<rparr>)"
    using closed ai by (simp add: before_close_def bj_def EOF_def)
  then have "before_close [] (read_LastChar ai) (read_LastChar (bj\<lparr>LastChar := 32\<rparr>))"
    using ai by (intro before_close_read_LastChar) (simp_all add: EOF_def)
  then have bc: "before_close [] (read_LastChar ai) b"
    by (simp add: b_def)
  have names: "IdentifierStr b = IdentifierStr (read_LastChar ai)"
    using ra rbj ai bi by (simp add: b_def bj_def)
  have numbers: "same_values Rv strtod strtod (read_LastChar ai) b"
    using ra rbj ai bi zero vals by (simp add: b_def bj_def same_values_def)
  have "GetTokPrecedence (b\<lparr>CurTok := 41\<rparr>) = GetTokPrecedence (bi\<lparr>CurTok := 41\<rparr>)"
    using rbj by (intro GetTokPrecedence_cong) (simp_all add: b_def bj_def)
  with closes tables ra rbj have table: "same_table (read_LastChar ai) b"
    by (simp add: same_table_def b_def bj_def)
  from getNextToken_sim_lexer [OF bc names numbers table ga'] obtain t' b1
    where gb1: "getNextToken strtod b = Returns (t', b1)" and s1: "sim Rv strtod strtod [] a b1"
    by blast
  from ParseExpression_sim [OF s1 parse] obtain V' b2
    where eb: "ParseExpression strtod n b1 = Returns (Some V', b2)" and rel: "rel_ExprAST Rv V V'"
      and s2: "sim Rv strtod strtod [] a' b2"
    by blast
  from s2 stop have c2: "CurTok b2 = 41" and l2: "LastChar b2 = EOF"
    by (simp_all add: sim_def)
  from l2 have g2: "getNextToken strtod b2 = Returns (tok_eof, b2\<lparr>CurTok := tok_eof\<rparr>)"
    by (rule getNextToken_at_end)
  from gb1 eb c2 g2 have "ParseParenExpr strtod (Suc n) b = Returns (Some V', b2\<lparr>CurTok := tok_eof\<rparr>)"
    by simp
  with startB cb rel show ?thesis
    by auto
qed

text \<open>
  C10, as it is stated, fails. A comment runs to the end of the line: \<^verbatim>\<open>1 # c\<close> alone parses
  to a number node, but in \<^verbatim>\<open>(1 # c)\<close> the comment takes the \<^verbatim>\<open>)\<close> with it, and both
  \<^verbatim>\<open>ParseParenExpr\<close> and \<^verbatim>\<open>ParseExpression\<close> return \<^verbatim>\<open>NULL\<close>. And \<^verbatim>\<open>ParseExpression\<close> returns
  a node as soon as the expression cannot go on: on \<^verbatim>\<open>1 2\<close> it returns the number node of
  \<^verbatim>\<open>1\<close> and stops at \<^verbatim>\<open>2\<close>, but on \<^verbatim>\<open>(1 2)\<close> there is no \<^verbatim>\<open>)\<close> where \<^verbatim>\<open>ParseParenExpr\<close> looks
  for it.
\<close>

theorem paren_loses_comment_counterexample:
  "expression_of the_text 10 [] spaces ''1 # c'' = Returns (Some (NumberExprAST '' 1''))
   \<and> paren_expression_of the_text 10 [] spaces ''(1 # c)'' = Returns None
   \<and> expression_of the_text 10 [] spaces ''(1 # c)'' = Returns None
   \<and> expression_of the_text 10 [] spaces ''1 2'' = Returns (Some (NumberExprAST '' 1''))
   \<and> paren_expression_of the_text 10 [] spaces ''(1 2)'' = Returns None
   \<and> expression_of the_text 10 [] spaces ''(1 2)'' = Returns None"
  by (simp add: paren_expression_of_def the_text_def spaces_def expression_of_def fuel_numeral_10
      lexer_unfold parser_unfold cong: and_then_weak_cong)

text \<open>
  C10. Let \<open>e\<close> be a text in which no comment runs to the end, and on which
  \<^verbatim>\<open>ParseExpression\<close> returns a node \<open>V\<close> and stops at the end of the input. Then on \<^verbatim>\<open>(e)\<close>
  \<^verbatim>\<open>ParseParenExpr\<close> returns a node \<open>V'\<close>, and \<^verbatim>\<open>ParseExpression\<close> returns the same \<open>V'\<close>: no
  node stands for the parentheses. \<open>V'\<close> is the tree \<open>V\<close>, whatever the unwritten cells
  \<^verbatim>\<open>NumStr[0]\<close> hold in the two runs, and \<open>V'\<close> is \<open>V\<close> itself when they hold the same bytes.
\<close>

theorem parenthesised_expression:
  assumes "comments_closed e"
    and "main_start strtod (initial zero junk e) = Returns a"
    and "ParseExpression strtod n a = Returns (Some V, a')"
    and "CurTok a' = tok_eof"
  shows "\<exists>V'. paren_expression_of strtod (Suc n) zero junk' (CHR ''('' # e @ '')'') = Returns (Some V')
      \<and> expression_of strtod (n + 3) zero junk' (CHR ''('' # e @ '')'') = Returns (Some V')
      \<and> tree_of V' = tree_of V
      \<and> ((\<forall>k. junk' k 0 = junk k 0) \<longrightarrow> V' = V)"
proof -
  from paren_sim [OF assms, of "\<lambda>_ _. True" junk']
  obtain b V' b' where start: "main_start strtod (initial zero junk' (CHR ''('' # e @ '')'')) = Returns b"
    and cb: "CurTok b = 40"
    and paren: "ParseParenExpr strtod (Suc n) b = Returns (Some V', b')"
    and stop: "CurTok b' = tok_eof"
    and rel: "rel_ExprAST (\<lambda>_ _. True) V V'"
    by auto
  from start paren have 1: "paren_expression_of strtod (Suc n) zero junk' (CHR ''('' # e @ '')'') = Returns (Some V')"
    by (simp add: paren_expression_of_def)
  from cb paren have "ParsePrimary strtod (Suc (Suc n)) b = Returns (Some V', b')"
    by (simp add: tok_identifier_def tok_number_def)
  moreover from stop have "ParseBinOpRHS strtod (Suc (Suc n)) 0 V' b' = Returns (Some V', b')"
    by (simp add: GetTokPrecedence_eof)
  ultimately have "ParseExpression strtod (Suc (Suc (Suc n))) b = Returns (Some V', b')"
    by simp
  with start have 2: "expression_of strtod (n + 3) zero junk' (CHR ''('' # e @ '')'') = Returns (Some V')"
    by (simp add: expression_of_def numeral_3_eq_3)
  from rel have 3: "tree_of V' = tree_of V"
    by (rule rel_tree_of)
  have 4: "V' = V" if same: "\<forall>k. junk' k 0 = junk k 0"
  proof -
    from same have "\<And>k t. strtod (c_cons (junk k 0) t) = strtod (c_cons (junk' k 0) t)"
      by simp
    from paren_sim [OF assms, of "(=)" junk', OF refl this]
    obtain b2 V2 b2' where "main_start strtod (initial zero junk' (CHR ''('' # e @ '')'')) = Returns b2"
      "ParseParenExpr strtod (Suc n) b2 = Returns (Some V2, b2')" "rel_ExprAST (=) V V2"
      by auto
    with start paren show ?thesis
      by (simp add: ExprAST.rel_eq)
  qed
  from 1 2 3 4 show ?thesis
    by blast
qed

lemma paren_expression_nuls:
  "paren_expression_of (\<lambda>t. t) (Suc 10) [] nuls ''(3+4)'' =
     Returns (Some (BinaryExprAST CHR ''+'' (NumberExprAST ([] :: string)) (NumberExprAST ([] :: string))))"
  by (simp add: paren_expression_of_def nuls_def fuel_numeral_10 lexer_unfold parser_unfold
      cong: and_then_weak_cong)

text \<open>
  On \<^verbatim>\<open>(3+4)\<close> the node returned is the one \<^verbatim>\<open>ParseExpression\<close> returns on \<^verbatim>\<open>3+4\<close>, when
  \<^verbatim>\<open>NumStr[0]\<close> holds a space in both runs. With a NUL there in the run on \<^verbatim>\<open>(3+4)\<close>, the
  number leaves hold the value of the empty text, in the same tree.
\<close>

theorem parenthesised_expression_witness:
  "comments_closed ''3+4''
   \<and> main_start (\<lambda>t. t) (initial [] spaces ''3+4'') = Returns after_3
   \<and> ParseExpression (\<lambda>t. t) 10 after_3 =
       Returns (Some (BinaryExprAST CHR ''+'' (NumberExprAST '' 3'') (NumberExprAST '' 4'')),
         after_3\<lparr>input := [], LastChar := EOF, CurTok := tok_eof, NumVal := '' 4'', NumStr_calls := 2\<rparr>)
   \<and> paren_expression_of (\<lambda>t. t) (Suc 10) [] spaces ''(3+4)'' =
       Returns (Some (BinaryExprAST CHR ''+'' (NumberExprAST '' 3'') (NumberExprAST '' 4'')))
   \<and> expression_of (\<lambda>t. t) (10 + 3) [] spaces ''(3+4)'' =
       Returns (Some (BinaryExprAST CHR ''+'' (NumberExprAST '' 3'') (NumberExprAST '' 4'')))
   \<and> paren_expression_of (\<lambda>t. t) (Suc 10) [] nuls ''(3+4)'' =
       Returns (Some (BinaryExprAST CHR ''+'' (NumberExprAST ([] :: string)) (NumberExprAST ([] :: string))))
   \<and> tree_of (BinaryExprAST CHR ''+'' (NumberExprAST ([] :: string)) (NumberExprAST ([] :: string))) =
       tree_of (BinaryExprAST CHR ''+'' (NumberExprAST '' 3'') (NumberExprAST '' 4''))"
proof -
  have closed: "comments_closed ''3+4''"
    by simp
  have stop: "CurTok (after_3\<lparr>input := [], LastChar := EOF, CurTok := tok_eof, NumVal := '' 4'', NumStr_calls := 2\<rparr>) = tok_eof"
    by simp
  note paren = parenthesised_expression [OF closed main_start_3 ParseExpression_after_3 stop]
  from paren [of spaces]
  obtain V' where "paren_expression_of (\<lambda>t. t) (Suc 10) [] spaces (CHR ''('' # ''3+4'' @ '')'') = Returns (Some V')"
    and "expression_of (\<lambda>t. t) (10 + 3) [] spaces (CHR ''('' # ''3+4'' @ '')'') = Returns (Some V')"
    and "V' = BinaryExprAST CHR ''+'' (NumberExprAST '' 3'') (NumberExprAST '' 4'')"
    by blast
  then have same: "paren_expression_of (\<lambda>t. t) (Suc 10) [] spaces ''(3+4)'' =
       Returns (Some (BinaryExprAST CHR ''+'' (NumberExprAST '' 3'') (NumberExprAST '' 4'')))"
    and whole: "expression_of (\<lambda>t. t) (10 + 3) [] spaces ''(3+4)'' =
       Returns (Some (BinaryExprAST CHR ''+'' (NumberExprAST '' 3'') (NumberExprAST '' 4'')))"
    by (simp_all only: append.simps)
  from paren [of nuls]
  obtain W where "paren_expression_of (\<lambda>t. t) (Suc 10) [] nuls (CHR ''('' # ''3+4'' @ '')'') = Returns (Some W)"
    and "tree_of W = tree_of (BinaryExprAST CHR ''+'' (NumberExprAST '' 3'') (NumberExprAST '' 4''))"
    by blast
  then have "paren_expression_of (\<lambda>t. t) (Suc 10) [] nuls ''(3+4)'' = Returns (Some W)"
    and tree: "tree_of W = tree_of (BinaryExprAST CHR ''+'' (NumberExprAST '' 3'') (NumberExprAST '' 4''))"
    by (simp_all only: append.simps)
  with paren_expression_nuls have W: "W = BinaryExprAST CHR ''+'' (NumberExprAST ([] :: string)) (NumberExprAST ([] :: string))"
    by (simp only: outcome.inject option.inject)
  from tree have other: "tree_of (BinaryExprAST CHR ''+'' (NumberExprAST ([] :: string)) (NumberExprAST ([] :: string))) =
       tree_of (BinaryExprAST CHR ''+'' (NumberExprAST '' 3'') (NumberExprAST '' 4''))"
    unfolding W .
  from closed main_start_3 ParseExpression_after_3 same whole paren_expression_nuls other show ?thesis
    by (intro conjI)
qed

end
